theory Spec2Isabelle
  imports Main "HOL-Library.Multiset"
begin

section \<open>Conventions\<close>

text \<open>
  The solvers of the repository are JavaScript classes whose methods mutate the object
  and append step objects to \<^verbatim>\<open>this.steps\<close>. Each class is a record of its fields, each
  method a function from the state to the new state (and the returned value where there
  is one), each \<^verbatim>\<open>for\<close> loop a \<open>fold\<close> of its body over the list of its indices, each
  recursive method a recursive function with its termination proof.

  The numbers of the inputs are integers (natural numbers where the input layer and the
  file headers require non-negative ones). In the table solvers, the heap and the
  counting sort the arithmetic is that of the integers: this is the arithmetic of the
  source as long as every value stays within the range in which a JavaScript number is an
  exact integer, below \<open>2\<^sup>5\<^sup>3\<close> in absolute value. The Strassen solver multiplies and
  adds its entries over several levels, so there the numbers are modelled as the source
  has them, with the rounding of binary64.
\<close>

section \<open>Table solvers: steps and state\<close>

text \<open>
  The knapsack and the LCS solver (\<^verbatim>\<open>src/components/knapsack/solver.js\<close>,
  \<^verbatim>\<open>src/components/lcs/solver.js\<close>) share one shape of step object:
  \<^verbatim>\<open>{row, col, type, value, description, highlight}\<close>. The field \<^verbatim>\<open>type\<close> is
  \<^verbatim>\<open>'inspect'\<close> or \<^verbatim>\<open>'update'\<close>; \<^verbatim>\<open>value\<close> is a number or the placeholder
  \<^verbatim>\<open>'?'\<close> (here \<open>None\<close>); \<^verbatim>\<open>highlight\<close> is a list of \<^verbatim>\<open>{r, c}\<close> objects and is absent
  (here \<open>None\<close>) in base-case steps. The template string of \<^verbatim>\<open>description\<close> is kept as a
  constructor holding the interpolated values.
\<close>

datatype step_type = Inspect | Update

record 'd tstep =
  row :: nat
  col :: nat
  stype :: step_type
  val :: "int option"
  description :: 'd
  highlight :: "(nat \<times> nat) list option"

record 'd tstate =
  dp :: "int list list"
  steps :: "'d tstep list"

text \<open>\<^verbatim>\<open>this.dp[r][c] = v\<close> on a table that has the cell.\<close>

definition set_cell :: "int list list \<Rightarrow> nat \<Rightarrow> nat \<Rightarrow> int \<Rightarrow> int list list" where
  "set_cell t r c v = t[r := (t ! r)[c := v]]"

text \<open>\<^verbatim>\<open>_resetState\<close>: a table of \<open>rows + 1\<close> rows of \<open>cols + 1\<close> zeros, no steps.\<close>

definition resetState :: "nat \<Rightarrow> nat \<Rightarrow> 'd tstate" where
  "resetState rows cols =
     \<lparr>dp = replicate (rows + 1) (replicate (cols + 1) 0), steps = []\<rparr>"

definition push :: "'d tstep \<Rightarrow> 'd tstate \<Rightarrow> 'd tstate" where
  "push st s = s\<lparr>steps := steps s @ [st]\<rparr>"

section \<open>KnapsackSolver\<close>

text \<open>
  Weights are natural numbers and the capacity is a natural number (the input layer
  produces weights from 1 to 9 and a non-negative capacity); values are integers.
  \<^verbatim>\<open>itemCount\<close> is \<^verbatim>\<open>weights.length\<close>. The theorems about the table assume
  \<^verbatim>\<open>values.length = weights.length\<close>, so that every read \<^verbatim>\<open>values[row - 1]\<close> is in range.
\<close>

datatype kdescr =
    KBaseCase
  | KComparing nat int int
  | KSetValue int
  | KExcluding nat nat nat
  | KCopied int

type_synonym kstep = "kdescr tstep"
type_synonym kstate = "kdescr tstate"

definition knap_handleBaseCell :: "nat \<Rightarrow> nat \<Rightarrow> kstate \<Rightarrow> kstate" where
  "knap_handleBaseCell r c s =
     push \<lparr>row = r, col = c, stype = Update, val = Some 0,
           description = KBaseCase, highlight = None\<rparr>
          (s\<lparr>dp := set_cell (dp s) r c 0\<rparr>)"

definition knap_recordInspect :: "nat \<Rightarrow> nat \<Rightarrow> int \<Rightarrow> int \<Rightarrow> nat \<Rightarrow> kstate \<Rightarrow> kstate" where
  "knap_recordInspect r c includeVal excludeVal weight s =
     push \<lparr>row = r, col = c, stype = Inspect, val = None,
           description = KComparing r includeVal excludeVal,
           highlight = Some [(r - 1, c - weight), (r - 1, c)]\<rparr> s"

definition knap_recordUpdate :: "nat \<Rightarrow> nat \<Rightarrow> int \<Rightarrow> int \<Rightarrow> nat \<Rightarrow> kstate \<Rightarrow> kstate" where
  "knap_recordUpdate r c includeVal excludeVal weight s =
     (let preferInclude = includeVal > excludeVal
      in push \<lparr>row = r, col = c, stype = Update, val = Some (dp s ! r ! c),
               description = KSetValue (dp s ! r ! c),
               highlight = (if preferInclude then Some [(r - 1, c - weight)]
                            else Some [(r - 1, c)])\<rparr> s)"

definition knap_recordExclude :: "nat \<Rightarrow> nat \<Rightarrow> nat \<Rightarrow> kstate \<Rightarrow> kstate" where
  "knap_recordExclude r c weight s =
     (let s1 = push \<lparr>row = r, col = c, stype = Inspect, val = None,
                     description = KExcluding r weight c,
                     highlight = Some [(r - 1, c)]\<rparr> s;
          s2 = s1\<lparr>dp := set_cell (dp s1) r c (dp s1 ! (r - 1) ! c)\<rparr>
      in push \<lparr>row = r, col = c, stype = Update, val = Some (dp s2 ! r ! c),
               description = KCopied (dp s2 ! r ! c),
               highlight = Some [(r - 1, c)]\<rparr> s2)"

definition knap_handleDecisionCell ::
  "nat list \<Rightarrow> int list \<Rightarrow> nat \<Rightarrow> nat \<Rightarrow> kstate \<Rightarrow> kstate" where
  "knap_handleDecisionCell weights values r c s =
     (let currentWeight = weights ! (r - 1);
          currentValue = values ! (r - 1)
      in if currentWeight > c then knap_recordExclude r c currentWeight s
         else
           let includeVal = currentValue + dp s ! (r - 1) ! (c - currentWeight);
               excludeVal = dp s ! (r - 1) ! c;
               s1 = knap_recordInspect r c includeVal excludeVal currentWeight s;
               s2 = s1\<lparr>dp := set_cell (dp s1) r c (max includeVal excludeVal)\<rparr>
           in knap_recordUpdate r c includeVal excludeVal currentWeight s2)"

text \<open>The body of the inner loop of \<^verbatim>\<open>_buildTable\<close>, and the two loops.\<close>

definition knap_cell :: "nat list \<Rightarrow> int list \<Rightarrow> nat \<Rightarrow> nat \<Rightarrow> kstate \<Rightarrow> kstate" where
  "knap_cell weights values i w s =
     (if i = 0 \<or> w = 0 then knap_handleBaseCell i w s
      else knap_handleDecisionCell weights values i w s)"

definition knap_row :: "nat \<Rightarrow> nat list \<Rightarrow> int list \<Rightarrow> nat \<Rightarrow> kstate \<Rightarrow> kstate" where
  "knap_row capacity weights values i s =
     fold (knap_cell weights values i) [0..<Suc capacity] s"

definition knap_buildTable :: "nat \<Rightarrow> nat list \<Rightarrow> int list \<Rightarrow> kstate \<Rightarrow> kstate" where
  "knap_buildTable capacity weights values s =
     fold (knap_row capacity weights values) [0..<Suc (length weights)] s"

definition knap_solve :: "nat \<Rightarrow> nat list \<Rightarrow> int list \<Rightarrow> kstate" where
  "knap_solve capacity weights values =
     knap_buildTable capacity weights values (resetState (length weights) capacity)"

subsection \<open>The recurrence, and what the loops leave in the table and in the trace\<close>

text \<open>
  \<open>knap_rec\<close> is the recurrence of the file's header comment as a function of the cell;
  \<open>knap_cell_steps\<close> lists the step objects of one cell in terms of it. They are used
  to state the loop invariant: after the cells before \<open>(i, k)\<close> in row-major order, those
  cells hold \<open>knap_rec\<close> and the trace is the concatenation of their steps.
\<close>

fun knap_rec :: "nat list \<Rightarrow> int list \<Rightarrow> nat \<Rightarrow> nat \<Rightarrow> int" where
  "knap_rec ws vs 0 w = 0"
| "knap_rec ws vs (Suc i) w =
     (if w = 0 then 0
      else if ws ! i > w then knap_rec ws vs i w
      else max (vs ! i + knap_rec ws vs i (w - ws ! i)) (knap_rec ws vs i w))"

definition knap_cell_steps :: "nat list \<Rightarrow> int list \<Rightarrow> nat \<Rightarrow> nat \<Rightarrow> kstep list" where
  "knap_cell_steps ws vs i w =
     (if i = 0 \<or> w = 0 then
        [\<lparr>row = i, col = w, stype = Update, val = Some 0,
          description = KBaseCase, highlight = None\<rparr>]
      else if ws ! (i - 1) > w then
        [\<lparr>row = i, col = w, stype = Inspect, val = None,
          description = KExcluding i (ws ! (i - 1)) w, highlight = Some [(i - 1, w)]\<rparr>,
         \<lparr>row = i, col = w, stype = Update, val = Some (knap_rec ws vs i w),
          description = KCopied (knap_rec ws vs i w), highlight = Some [(i - 1, w)]\<rparr>]
      else
        [\<lparr>row = i, col = w, stype = Inspect, val = None,
          description = KComparing i (vs ! (i - 1) + knap_rec ws vs (i - 1) (w - ws ! (i - 1)))
                          (knap_rec ws vs (i - 1) w),
          highlight = Some [(i - 1, w - ws ! (i - 1)), (i - 1, w)]\<rparr>,
         \<lparr>row = i, col = w, stype = Update, val = Some (knap_rec ws vs i w),
          description = KSetValue (knap_rec ws vs i w),
          highlight = (if vs ! (i - 1) + knap_rec ws vs (i - 1) (w - ws ! (i - 1))
                          > knap_rec ws vs (i - 1) w
                       then Some [(i - 1, w - ws ! (i - 1))] else Some [(i - 1, w)])\<rparr>])"

definition table_dims :: "nat \<Rightarrow> nat \<Rightarrow> int list list \<Rightarrow> bool" where
  "table_dims n C t \<longleftrightarrow> length t = Suc n \<and> (\<forall>r\<le>n. length (t ! r) = Suc C)"

definition filled :: "(nat \<Rightarrow> nat \<Rightarrow> int) \<Rightarrow> nat \<Rightarrow> nat \<Rightarrow> nat \<Rightarrow> nat \<Rightarrow> int list list \<Rightarrow> bool" where
  "filled f n C i k t \<longleftrightarrow>
     (\<forall>a b. a \<le> n \<longrightarrow> b \<le> C \<longrightarrow> (a < i \<or> (a = i \<and> b < k)) \<longrightarrow> t ! a ! b = f a b)"

lemma set_cell_dims: "table_dims n C t \<Longrightarrow> table_dims n C (set_cell t r c v)"
proof -
  assume t: "table_dims n C t"
  have "length (t[r := (t ! r)[c := v]] ! a) = Suc C" if "a \<le> n" for a
    using t that by (cases "a = r") (auto simp: table_dims_def)
  with t show ?thesis by (simp add: table_dims_def set_cell_def)
qed

lemma set_cell_nth:
  "table_dims n C t \<Longrightarrow> r \<le> n \<Longrightarrow> c \<le> C \<Longrightarrow> a \<le> n \<Longrightarrow> b \<le> C \<Longrightarrow>
   set_cell t r c v ! a ! b = (if a = r \<and> b = c then v else t ! a ! b)"
  by (auto simp: table_dims_def set_cell_def nth_list_update)

lemma filled_step:
  assumes "table_dims n C t" "filled f n C i k t" "i \<le> n" "k \<le> C"
  shows "filled f n C i (Suc k) (set_cell t i k (f i k))"
  using assms unfolding filled_def
  by (auto simp: set_cell_nth less_Suc_eq)

lemma filled_next_row: "filled f n C i (Suc C) t \<Longrightarrow> filled f n C (Suc i) 0 t"
  unfolding filled_def
proof (intro allI impI)
  fix a b
  assume h: "\<forall>a b. a \<le> n \<longrightarrow> b \<le> C \<longrightarrow> a < i \<or> a = i \<and> b < Suc C \<longrightarrow> t ! a ! b = f a b"
    and a: "a \<le> n" and b: "b \<le> C" and c: "a < Suc i \<or> a = Suc i \<and> b < 0"
  from c b have "a < i \<or> a = i \<and> b < Suc C" by auto
  with h a b show "t ! a ! b = f a b" by blast
qed

lemma knap_cell_eq:
  assumes d: "table_dims n C (dp s)" and f: "filled (knap_rec ws vs) n C i k (dp s)"
    and i: "i \<le> n" and k: "k \<le> C"
  shows "knap_cell ws vs i k s =
     \<lparr>dp = set_cell (dp s) i k (knap_rec ws vs i k), steps = steps s @ knap_cell_steps ws vs i k\<rparr>"
proof (cases "i = 0 \<or> k = 0")
  case True
  then have "knap_rec ws vs i k = 0" by (cases i) auto
  with True show ?thesis
    by (simp add: knap_cell_def knap_handleBaseCell_def push_def knap_cell_steps_def)
next
  case False
  then obtain j where j: "i = Suc j" by (cases i) auto
  have prev: "\<And>b. b \<le> C \<Longrightarrow> dp s ! j ! b = knap_rec ws vs j b"
    using f i j unfolding filled_def by auto
  have self: "\<And>v. set_cell (dp s) i k v ! i ! k = v"
    using d i k by (simp add: set_cell_nth)
  show ?thesis
  proof (cases "ws ! j > k")
    case True
    with False j prev[of k] k self show ?thesis
      by (simp add: knap_cell_def knap_handleDecisionCell_def knap_recordExclude_def
          push_def knap_cell_steps_def Let_def)
  next
    case gt: False
    have "k - ws ! j \<le> C" using k by simp
    with False j prev[of k] prev[of "k - ws ! j"] k self gt show ?thesis
      by (simp add: knap_cell_def knap_handleDecisionCell_def knap_recordInspect_def
          knap_recordUpdate_def push_def knap_cell_steps_def Let_def)
  qed
qed

lemma fold_upt_Suc: "fold f [0..<Suc k] s = f k (fold f [0..<k] s)"
  by simp

lemma knap_row_aux:
  assumes d: "table_dims n C (dp s)" and f: "filled (knap_rec ws vs) n C i 0 (dp s)"
    and i: "i \<le> n"
  shows "k \<le> Suc C \<Longrightarrow>
     table_dims n C (dp (fold (knap_cell ws vs i) [0..<k] s)) \<and>
     filled (knap_rec ws vs) n C i k (dp (fold (knap_cell ws vs i) [0..<k] s)) \<and>
     steps (fold (knap_cell ws vs i) [0..<k] s) =
       steps s @ concat (map (knap_cell_steps ws vs i) [0..<k])"
proof (induction k)
  case 0
  from d f show ?case by simp
next
  case (Suc k)
  let ?s = "fold (knap_cell ws vs i) [0..<k] s"
  from Suc have ih: "table_dims n C (dp ?s)" "filled (knap_rec ws vs) n C i k (dp ?s)"
    "steps ?s = steps s @ concat (map (knap_cell_steps ws vs i) [0..<k])" and k: "k \<le> C"
    by simp_all
  have "fold (knap_cell ws vs i) [0..<Suc k] s = knap_cell ws vs i k ?s" by (rule fold_upt_Suc)
  also have "\<dots> = \<lparr>dp = set_cell (dp ?s) i k (knap_rec ws vs i k),
                     steps = steps ?s @ knap_cell_steps ws vs i k\<rparr>"
    by (rule knap_cell_eq[OF ih(1) ih(2) i k])
  finally have eq: "fold (knap_cell ws vs i) [0..<Suc k] s =
      \<lparr>dp = set_cell (dp ?s) i k (knap_rec ws vs i k),
       steps = steps ?s @ knap_cell_steps ws vs i k\<rparr>" .
  show ?case
    unfolding eq using ih i k
    by (simp add: set_cell_dims filled_step)
qed

lemma concat_map_upt_Suc: "concat (map g [0..<Suc k]) = concat (map g [0..<k]) @ g k"
  by simp


definition knap_row_steps :: "nat list \<Rightarrow> int list \<Rightarrow> nat \<Rightarrow> nat \<Rightarrow> kstep list" where
  "knap_row_steps ws vs C i = concat (map (knap_cell_steps ws vs i) [0..<Suc C])"

lemma knap_rows:
  assumes d: "table_dims n C (dp s)"
  shows "m \<le> Suc n \<Longrightarrow>
     table_dims n C (dp (fold (knap_row C ws vs) [0..<m] s)) \<and>
     filled (knap_rec ws vs) n C m 0 (dp (fold (knap_row C ws vs) [0..<m] s)) \<and>
     steps (fold (knap_row C ws vs) [0..<m] s) =
       steps s @ concat (map (knap_row_steps ws vs C) [0..<m])"
proof (induction m)
  case 0
  from d show ?case by (simp add: filled_def)
next
  case (Suc m)
  let ?s = "fold (knap_row C ws vs) [0..<m] s"
  from Suc have ih: "table_dims n C (dp ?s)" "filled (knap_rec ws vs) n C m 0 (dp ?s)"
    "steps ?s = steps s @ concat (map (knap_row_steps ws vs C) [0..<m])" and m: "m \<le> n"
    by simp_all
  have eq: "fold (knap_row C ws vs) [0..<Suc m] s =
      fold (knap_cell ws vs m) [0..<Suc C] ?s"
    unfolding fold_upt_Suc knap_row_def ..
  from knap_row_aux[OF ih(1) ih(2) m, of "Suc C"] ih(3)
  show ?case unfolding eq concat_map_upt_Suc knap_row_steps_def
    by (simp add: filled_next_row del: upt_Suc)
qed

lemma resetState_dims: "table_dims n C (dp (resetState n C))"
  by (simp add: table_dims_def resetState_def del: replicate.simps)

lemma knap_solve_table:
  "i \<le> length ws \<Longrightarrow> w \<le> C \<Longrightarrow> dp (knap_solve C ws vs) ! i ! w = knap_rec ws vs i w"
  using knap_rows[OF resetState_dims, of "Suc (length ws)" "length ws" C ws vs]
  unfolding knap_solve_def knap_buildTable_def filled_def by simp

lemma knap_solve_steps:
  "steps (knap_solve C ws vs) = concat (map (knap_row_steps ws vs C) [0..<Suc (length ws)])"
  using knap_rows[OF resetState_dims, of "Suc (length ws)" "length ws" C ws vs]
  unfolding knap_solve_def knap_buildTable_def by (simp add: resetState_def)

subsection \<open>The table of the knapsack solver\<close>

lemma knap_ex: "knap_rec [2,3,4,5] [3,4,5,6] 4 5 = 7"
  by code_simp

text \<open>
  Claim C1. For every capacity and every weights and values of equal length, the table
  returned by \<^verbatim>\<open>KnapsackSolver.solve()\<close> has zeros in row 0 and in column 0, and every
  other cell \<open>(i, w)\<close> holds \<open>max (values[i-1] + dp[i-1][w - weights[i-1]]) dp[i-1][w]\<close>
  when \<open>weights[i-1] \<le> w\<close> and \<open>dp[i-1][w]\<close> otherwise. For weights \<open>[2,3,4,5]\<close>,
  values \<open>[3,4,5,6]\<close> and capacity 5 the cell \<open>dp[4][5]\<close> is 7.
\<close>

theorem knapsack_recurrence:
  assumes "length values = length weights" and "i \<le> length weights" and "w \<le> capacity"
  shows "(i = 0 \<or> w = 0 \<longrightarrow> dp (knap_solve capacity weights values) ! i ! w = 0) \<and>
     (1 \<le> i \<and> 1 \<le> w \<longrightarrow>
        (if weights ! (i - 1) \<le> w
         then dp (knap_solve capacity weights values) ! i ! w =
                max (values ! (i - 1) +
                       dp (knap_solve capacity weights values) ! (i - 1) ! (w - weights ! (i - 1)))
                    (dp (knap_solve capacity weights values) ! (i - 1) ! w)
         else dp (knap_solve capacity weights values) ! i ! w =
                dp (knap_solve capacity weights values) ! (i - 1) ! w)) \<and>
     dp (knap_solve 5 [2, 3, 4, 5] [3, 4, 5, 6]) ! 4 ! 5 = 7"
proof (intro conjI impI)
  assume "i = 0 \<or> w = 0"
  then have "knap_rec weights values i w = 0" by (cases i) auto
  with assms show "dp (knap_solve capacity weights values) ! i ! w = 0"
    by (simp add: knap_solve_table)
next
  assume "1 \<le> i \<and> 1 \<le> w"
  then obtain j where j: "i = Suc j" and w: "w \<noteq> 0" by (cases i) auto
  have "j \<le> length weights" "w - weights ! j \<le> capacity" using assms j by simp_all
  with assms j w
  show "if weights ! (i - 1) \<le> w
         then dp (knap_solve capacity weights values) ! i ! w =
                max (values ! (i - 1) +
                       dp (knap_solve capacity weights values) ! (i - 1) ! (w - weights ! (i - 1)))
                    (dp (knap_solve capacity weights values) ! (i - 1) ! w)
         else dp (knap_solve capacity weights values) ! i ! w =
                dp (knap_solve capacity weights values) ! (i - 1) ! w"
    by (simp add: knap_solve_table)
next
  show "dp (knap_solve 5 [2, 3, 4, 5] [3, 4, 5, 6]) ! 4 ! 5 = 7"
    by (simp add: knap_solve_table knap_ex)
qed

theorem knapsack_recurrence_witness:
  "length [3, 4, 5, 6 :: int] = length [2, 3, 4, 5 :: nat] \<and> (4::nat) \<le> length [2, 3, 4, 5 :: nat] \<and>
   (5::nat) \<le> 5 \<and>
   dp (knap_solve 5 [2, 3, 4, 5] [3, 4, 5, 6]) ! 4 ! 5 =
     max (6 + dp (knap_solve 5 [2, 3, 4, 5] [3, 4, 5, 6]) ! 3 ! 0)
         (dp (knap_solve 5 [2, 3, 4, 5] [3, 4, 5, 6]) ! 3 ! 5)"
  using knapsack_recurrence [of "[3, 4, 5, 6]" "[2, 3, 4, 5]" 4 5 5]
  by simp

subsection \<open>The trace of the knapsack solver\<close>

lemma knap_cell_steps_pos:
  "st \<in> set (knap_cell_steps ws vs i w) \<Longrightarrow> row st = i \<and> col st = w"
  by (auto simp: knap_cell_steps_def split: if_splits)

lemma knap_cell_steps_update:
  assumes "st \<in> set (knap_cell_steps ws vs (Suc j) w)" "stype st = Update" "w \<noteq> 0" "ws ! j \<le> w"
  shows "val st = Some (knap_rec ws vs (Suc j) w) \<and>
         highlight st = (if vs ! j + knap_rec ws vs j (w - ws ! j) > knap_rec ws vs j w
                         then Some [(j, w - ws ! j)] else Some [(j, w)])"
  using assms by (auto simp: knap_cell_steps_def split: if_splits)

lemma knap_step_cell:
  assumes "st \<in> set (steps (knap_solve C ws vs))"
  shows "row st \<le> length ws \<and> col st \<le> C \<and> st \<in> set (knap_cell_steps ws vs (row st) (col st))"
proof -
  from assms obtain i w where i: "i < Suc (length ws)" and w: "w < Suc C"
    and st: "st \<in> set (knap_cell_steps ws vs i w)"
    unfolding knap_solve_steps knap_row_steps_def by (auto simp del: upt_Suc)
  from knap_cell_steps_pos[OF st] i w st show ?thesis by auto
qed

text \<open>
  Claim C10. In a decision cell of the knapsack solver (row and column at least 1, the
  item's weight at most the column) the committed \<^verbatim>\<open>'update'\<close> step carries the cell's
  value, which is the larger candidate, and highlights the include cell
  \<open>(row - 1, col - weight)\<close> only when the include candidate is strictly greater; when
  the two candidates are equal it highlights the exclude cell \<open>(row - 1, col)\<close> and
  the value is the common candidate.
\<close>

theorem knapsack_tie_highlight:
  assumes len: "length values = length weights"
    and st: "st \<in> set (steps (knap_solve capacity weights values))"
    and upd: "stype st = Update"
    and dec: "1 \<le> row st" "1 \<le> col st" "weights ! (row st - 1) \<le> col st"
    and t: "t = dp (knap_solve capacity weights values)"
    and inc: "includeVal = values ! (row st - 1) + t ! (row st - 1) ! (col st - weights ! (row st - 1))"
    and exc: "excludeVal = t ! (row st - 1) ! col st"
  shows "val st = Some (t ! row st ! col st) \<and>
         t ! row st ! col st = max includeVal excludeVal \<and>
         highlight st = Some [if includeVal > excludeVal
                              then (row st - 1, col st - weights ! (row st - 1))
                              else (row st - 1, col st)] \<and>
         (includeVal = excludeVal \<longrightarrow>
            highlight st = Some [(row st - 1, col st)] \<and> val st = Some excludeVal)"
proof -
  from knap_step_cell[OF st] have r: "row st \<le> length weights" and c: "col st \<le> capacity"
    and m: "st \<in> set (knap_cell_steps weights values (row st) (col st))" by auto
  from dec obtain j where j: "row st = Suc j" by (cases "row st") auto
  have jr: "j \<le> length weights" and cw: "col st - weights ! j \<le> capacity"
    using r c j by simp_all
  have tab: "t ! Suc j ! col st = knap_rec weights values (Suc j) (col st)"
    "t ! j ! col st = knap_rec weights values j (col st)"
    "t ! j ! (col st - weights ! j) = knap_rec weights values j (col st - weights ! j)"
    using r c j jr cw unfolding t by (simp_all add: knap_solve_table)
  from knap_cell_steps_update[OF m[unfolded j] upd] dec j have
    "val st = Some (knap_rec weights values (Suc j) (col st))"
    "highlight st = (if values ! j + knap_rec weights values j (col st - weights ! j)
                          > knap_rec weights values j (col st)
                       then Some [(j, col st - weights ! j)] else Some [(j, col st)])"
    by auto
  with dec j tab inc exc show ?thesis by (auto simp: max_def)
qed

lemma knap_tie_steps:
  "steps (knap_solve 2 [2, 2] [3, 3]) ! 12 =
     \<lparr>row = 2, col = 2, stype = Update, val = Some 3, description = KSetValue 3,
      highlight = Some [(1, 2)]\<rparr>"
  unfolding knap_solve_steps knap_row_steps_def
  by (simp add: knap_cell_steps_def eval_nat_numeral)

lemma knap_tie_table: "dp (knap_solve 2 [2, 2] [3, 3]) = [[0, 0, 0], [0, 0, 3], [0, 0, 3]]"
  by code_simp

theorem knapsack_tie_highlight_witness:
  "steps (knap_solve 2 [2, 2] [3, 3]) ! 12 \<in> set (steps (knap_solve 2 [2, 2] [3, 3])) \<and>
   stype (steps (knap_solve 2 [2, 2] [3, 3]) ! 12) = Update \<and>
   row (steps (knap_solve 2 [2, 2] [3, 3]) ! 12) = 2 \<and>
   col (steps (knap_solve 2 [2, 2] [3, 3]) ! 12) = 2 \<and>
   [3, 3] ! 1 + dp (knap_solve 2 [2, 2] [3, 3]) ! 1 ! 0 = dp (knap_solve 2 [2, 2] [3, 3]) ! 1 ! 2 \<and>
   highlight (steps (knap_solve 2 [2, 2] [3, 3]) ! 12) = Some [(1, 2)] \<and>
   val (steps (knap_solve 2 [2, 2] [3, 3]) ! 12) = Some 3"
proof -
  let ?S = "knap_solve 2 [2, 2] [3, 3]"
  let ?st = "steps ?S ! 12"
  have len: "length (steps ?S) = 13" by code_simp
  have mem: "?st \<in> set (steps ?S)" using len by (intro nth_mem) simp
  have h1: "length [3, 3 :: int] = length [2, 2 :: nat]" by simp
  have h2: "stype ?st = Update" by (simp add: knap_tie_steps)
  have h3: "1 \<le> row ?st" "1 \<le> col ?st" "[2, 2] ! (row ?st - 1) \<le> col ?st"
    by (simp_all add: knap_tie_steps)
  from knapsack_tie_highlight[OF h1 mem h2 h3 refl refl refl] mem
  show ?thesis by (simp add: knap_tie_steps knap_tie_table)
qed

section \<open>Traceback over the solved knapsack table\<close>

text \<open>
  \<^verbatim>\<open>TracebackManager._animateKnapsackTraceback\<close> (\<^verbatim>\<open>src/unnamed/part_006\<close>) without
  the delays and the highlighting: the loop \<^verbatim>\<open>while (i > 0 && w > 0)\<close>, where
  \<^verbatim>\<open>_includeItem\<close> pushes the 1-based item \<open>i\<close> onto \<^verbatim>\<open>selectedItems\<close>. The column
  is an integer, as \<^verbatim>\<open>w -= weights[i - 1]\<close> may leave it negative on an arbitrary table;
  cells are read only while \<open>w > 0\<close>. \<open>knap_selected\<close> starts the walk at
  \<open>(weights.length, capacity)\<close> as \<^verbatim>\<open>_startKnapsackTraceback\<close> does and sorts the items
  as \<^verbatim>\<open>_finalizeKnapsackResult\<close> does.
\<close>

function knap_traceback :: "int list list \<Rightarrow> nat list \<Rightarrow> nat \<Rightarrow> int \<Rightarrow> nat list \<Rightarrow> nat list" where
  "knap_traceback dpTable weights i w selectedItems =
     (if i > 0 \<and> w > 0 then
        (let currentVal = dpTable ! i ! nat w;
             aboveVal = dpTable ! (i - 1) ! nat w
         in if currentVal \<noteq> aboveVal
            then knap_traceback dpTable weights (i - 1) (w - int (weights ! (i - 1)))
                   (selectedItems @ [i])
            else knap_traceback dpTable weights (i - 1) w selectedItems)
      else selectedItems)"
  by pat_completeness auto
termination
  by (relation "measure (\<lambda>(dpTable, weights, i, w, selectedItems). i)") auto

definition knap_selected :: "int list list \<Rightarrow> nat list \<Rightarrow> nat \<Rightarrow> nat list" where
  "knap_selected dpTable weights capacity =
     sort (knap_traceback dpTable weights (length weights) (int capacity) [])"

subsection \<open>The same walk in monk mode\<close>

text \<open>
  \<^verbatim>\<open>_setupMonkModeKnapsack\<close>: the closure \<^verbatim>\<open>processStep\<close> with its variables \<open>i\<close>, \<open>w\<close>
  and the manager's \<^verbatim>\<open>selectedItems\<close>; \<open>tb_complete\<close> records that
  \<^verbatim>\<open>_completeTraceback\<close> was called. \<^verbatim>\<open>_completeTraceback\<close> removes the click handler and
  calls \<^verbatim>\<open>_finalizeKnapsackResult\<close>, whose \<^verbatim>\<open>this.selectedItems.sort((a, b) => a - b)\<close>
  sorts the array in place. The clicked cell comes from \<^verbatim>\<open>parseInt\<close> of the cell's data
  attributes. \<open>knap_expected\<close> is the pair \<^verbatim>\<open>(expectedRow, expectedCol)\<close>, and
  \<open>knap_accept\<close> the branch taken when the click equals it.
\<close>

record knap_monk =
  tb_i :: nat
  tb_w :: int
  tb_selected :: "nat list"
  tb_complete :: bool

definition knap_completeTraceback :: "knap_monk \<Rightarrow> knap_monk" where
  "knap_completeTraceback t = t\<lparr>tb_selected := sort (tb_selected t), tb_complete := True\<rparr>"

definition knap_expected :: "int list list \<Rightarrow> nat list \<Rightarrow> knap_monk \<Rightarrow> int \<times> int" where
  "knap_expected dpTable weights t =
     (let i = tb_i t; w = tb_w t;
          itemWeight = weights ! (i - 1);
          currentVal = dpTable ! i ! nat w;
          aboveVal = dpTable ! (i - 1) ! nat w
      in (int i - 1, if currentVal \<noteq> aboveVal then w - int itemWeight else w))"

definition knap_accept :: "int list list \<Rightarrow> nat list \<Rightarrow> knap_monk \<Rightarrow> knap_monk" where
  "knap_accept dpTable weights t =
     (let i = tb_i t; w = tb_w t;
          isInclude = dpTable ! i ! nat w \<noteq> dpTable ! (i - 1) ! nat w;
          t1 = (if isInclude then t\<lparr>tb_selected := tb_selected t @ [i]\<rparr> else t);
          t2 = t1\<lparr>tb_i := nat (fst (knap_expected dpTable weights t)),
                  tb_w := snd (knap_expected dpTable weights t)\<rparr>
      in if tb_i t2 \<le> 0 \<or> tb_w t2 \<le> 0 then knap_completeTraceback t2 else t2)"

definition knap_processStep ::
  "int list list \<Rightarrow> nat list \<Rightarrow> int \<Rightarrow> int \<Rightarrow> knap_monk \<Rightarrow> knap_monk" where
  "knap_processStep dpTable weights clickedRow clickedCol t =
     (if tb_i t \<le> 0 \<or> tb_w t \<le> 0 then knap_completeTraceback t
      else if clickedRow = fst (knap_expected dpTable weights t) \<and>
              clickedCol = snd (knap_expected dpTable weights t)
           then knap_accept dpTable weights t
           else t)"

text \<open>
  A click on a cell of the grid calls \<^verbatim>\<open>processStep\<close> as long as the handler is
  installed, that is until \<^verbatim>\<open>_completeTraceback\<close> has run. \<open>knap_monk_start\<close> is the state
  that \<^verbatim>\<open>init\<close> and \<^verbatim>\<open>_startKnapsackTraceback\<close> leave, \<open>knap_monk_run\<close> the state after a
  sequence of clicks, and \<open>knap_click_expected\<close> a click on the expected cell.
\<close>

definition knap_click :: "int list list \<Rightarrow> nat list \<Rightarrow> int \<times> int \<Rightarrow> knap_monk \<Rightarrow> knap_monk" where
  "knap_click dpTable weights cell t =
     (if tb_complete t then t else knap_processStep dpTable weights (fst cell) (snd cell) t)"

definition knap_monk_start :: "nat list \<Rightarrow> nat \<Rightarrow> knap_monk" where
  "knap_monk_start weights capacity =
     \<lparr>tb_i = length weights, tb_w = int capacity, tb_selected = [], tb_complete = False\<rparr>"

definition knap_monk_run ::
  "int list list \<Rightarrow> nat list \<Rightarrow> nat \<Rightarrow> (int \<times> int) list \<Rightarrow> knap_monk" where
  "knap_monk_run dpTable weights capacity clicks =
     fold (knap_click dpTable weights) clicks (knap_monk_start weights capacity)"

definition knap_click_expected :: "int list list \<Rightarrow> nat list \<Rightarrow> knap_monk \<Rightarrow> knap_monk" where
  "knap_click_expected dpTable weights t =
     knap_click dpTable weights (knap_expected dpTable weights t) t"

subsection \<open>The items that the walks select\<close>

declare knap_traceback.simps [simp del]

lemma knap_rec_changed:
  assumes "knap_rec ws vs (Suc j) w \<noteq> knap_rec ws vs j w"
  shows "w \<noteq> 0 \<and> ws ! j \<le> w \<and> knap_rec ws vs (Suc j) w = vs ! j + knap_rec ws vs j (w - ws ! j)"
  using assms by (cases j) (auto simp: max_def split: if_splits)

lemma knap_rec_col0: "knap_rec ws vs i 0 = 0"
  by (cases i) auto

lemma knap_traceback_sums:
  "\<forall>a b. a \<le> n \<longrightarrow> b \<le> C \<longrightarrow> t ! a ! b = knap_rec ws vs a b \<Longrightarrow>
     i \<le> n \<Longrightarrow> 0 \<le> w \<Longrightarrow> nat w \<le> C \<Longrightarrow>
     (\<Sum>k\<leftarrow>knap_traceback t ws i w sel. vs ! (k - 1)) =
        (\<Sum>k\<leftarrow>sel. vs ! (k - 1)) + knap_rec ws vs i (nat w) \<and>
     (\<Sum>k\<leftarrow>knap_traceback t ws i w sel. int (ws ! (k - 1))) \<le>
        (\<Sum>k\<leftarrow>sel. int (ws ! (k - 1))) + w"
proof (induction t ws i w sel rule: knap_traceback.induct)
  case (1 t ws i w sel)
  note tab = "1.prems"(1)[rule_format]
  show ?case
  proof (cases "i > 0 \<and> w > 0")
    case False
    then have "knap_rec ws vs i (nat w) = 0" using "1.prems"(2-)
      by (cases i) (auto simp: knap_rec_col0)
    moreover have "knap_traceback t ws i w sel = sel"
      using False by (subst knap_traceback.simps) auto
    ultimately show ?thesis using "1.prems"(3) by simp
  next
    case True
    then obtain j where j: "i = Suc j" by (cases i) auto
    have cur: "t ! i ! nat w = knap_rec ws vs i (nat w)" "t ! j ! nat w = knap_rec ws vs j (nat w)"
      using tab[of i "nat w"] tab[of j "nat w"] "1.prems"(2-) j by (simp_all del: knap_rec.simps)
    show ?thesis
    proof (cases "t ! i ! nat w \<noteq> t ! (i - 1) ! nat w")
      case inc: True
      with cur j have ne: "knap_rec ws vs (Suc j) (nat w) \<noteq> knap_rec ws vs j (nat w)" by simp
      note ch = knap_rec_changed[OF ne]
      have w': "0 \<le> w - int (ws ! j)" "nat (w - int (ws ! j)) \<le> C"
        "nat (w - int (ws ! j)) = nat w - ws ! j"
        using ch "1.prems"(2-) by auto
      have "i - 1 \<le> n" using "1.prems"(2-) by simp
      from "1.IH"(1)[OF True refl refl inc "1.prems"(1) this] w' j
      have ih: "(\<Sum>k\<leftarrow>knap_traceback t ws j (w - int (ws ! j)) (sel @ [i]). vs ! (k - 1)) =
          (\<Sum>k\<leftarrow>sel @ [i]. vs ! (k - 1)) + knap_rec ws vs j (nat w - ws ! j)"
        "(\<Sum>k\<leftarrow>knap_traceback t ws j (w - int (ws ! j)) (sel @ [i]). int (ws ! (k - 1))) \<le>
          (\<Sum>k\<leftarrow>sel @ [i]. int (ws ! (k - 1))) + (w - int (ws ! j))"
        by simp_all
      have unf: "knap_traceback t ws i w sel = knap_traceback t ws j (w - int (ws ! j)) (sel @ [i])"
        using True inc j by (subst knap_traceback.simps) simp
      show ?thesis unfolding unf using ih ch j by (simp del: knap_rec.simps)
    next
      case exc: False
      have "i - 1 \<le> n" using "1.prems"(2-) by simp
      from "1.IH"(2)[OF True refl refl exc "1.prems"(1) this] "1.prems"(2-) j
      have ih: "(\<Sum>k\<leftarrow>knap_traceback t ws j w sel. vs ! (k - 1)) =
          (\<Sum>k\<leftarrow>sel. vs ! (k - 1)) + knap_rec ws vs j (nat w)"
        "(\<Sum>k\<leftarrow>knap_traceback t ws j w sel. int (ws ! (k - 1))) \<le>
          (\<Sum>k\<leftarrow>sel. int (ws ! (k - 1))) + w"
        by simp_all
      have unf: "knap_traceback t ws i w sel = knap_traceback t ws j w sel"
        using True exc j by (subst knap_traceback.simps) simp
      show ?thesis unfolding unf using ih exc cur j by (simp del: knap_rec.simps)
    qed
  qed
qed

lemma sum_list_sort: "(\<Sum>k\<leftarrow>sort xs. f k) = (\<Sum>k\<leftarrow>xs. (f k :: int))"
proof -
  have "mset (map f (sort xs)) = mset (map f xs)" by simp
  then show ?thesis by (metis sum_mset_sum_list)
qed

lemma knap_traceback_items:
  "distinct sel \<Longrightarrow> (\<forall>k\<in>set sel. i < k \<and> k \<le> n) \<Longrightarrow> i \<le> n \<Longrightarrow>
   distinct (knap_traceback t ws i w sel) \<and>
   (\<forall>k\<in>set (knap_traceback t ws i w sel). 1 \<le> k \<and> k \<le> n)"
proof (induction t ws i w sel rule: knap_traceback.induct)
  case (1 t ws i w sel)
  show ?case
  proof (cases "i > 0 \<and> w > 0")
    case False
    have "knap_traceback t ws i w sel = sel"
      using False by (subst knap_traceback.simps) auto
    with "1.prems" show ?thesis by auto
  next
    case True
    show ?thesis
    proof (cases "t ! i ! nat w \<noteq> t ! (i - 1) ! nat w")
      case inc: True
      have unf: "knap_traceback t ws i w sel =
          knap_traceback t ws (i - 1) (w - int (ws ! (i - 1))) (sel @ [i])"
        using True inc by (subst knap_traceback.simps) simp
      have "distinct (sel @ [i])" "\<forall>k\<in>set (sel @ [i]). i - 1 < k \<and> k \<le> n" "i - 1 \<le> n"
        using "1.prems" True by auto
      from "1.IH"(1)[OF True refl refl inc this] show ?thesis unfolding unf .
    next
      case exc: False
      have unf: "knap_traceback t ws i w sel = knap_traceback t ws (i - 1) w sel"
        using True exc by (subst knap_traceback.simps) simp
      have "distinct sel" "\<forall>k\<in>set sel. i - 1 < k \<and> k \<le> n" "i - 1 \<le> n"
        using "1.prems" True by auto
      from "1.IH"(2)[OF True refl refl exc this] show ?thesis unfolding unf .
    qed
  qed
qed

text \<open>
  The monk walk and the animated walk: a state that is not complete has the rest of the
  animated walk before it, and a complete state holds the sorted items of the whole
  walk. A click that is not on the expected cell changes nothing.
\<close>

definition knap_walk_inv :: "int list list \<Rightarrow> nat list \<Rightarrow> nat list \<Rightarrow> knap_monk \<Rightarrow> bool" where
  "knap_walk_inv dpTable weights tb t \<longleftrightarrow>
     (if tb_complete t then tb_selected t = sort tb
      else knap_traceback dpTable weights (tb_i t) (tb_w t) (tb_selected t) = tb)"

lemma knap_processStep_wrong:
  assumes "0 < tb_i t" and "0 < tb_w t"
    and "(clickedRow, clickedCol) \<noteq> knap_expected dpTable weights t"
  shows "knap_processStep dpTable weights clickedRow clickedCol t = t"
proof -
  have "\<not> (clickedRow = fst (knap_expected dpTable weights t) \<and>
           clickedCol = snd (knap_expected dpTable weights t))"
    using assms(3) by (metis prod.collapse)
  then show ?thesis using assms(1,2) unfolding knap_processStep_def by auto
qed

lemma knap_traceback_step:
  assumes "0 < i" and "0 < w"
  shows "knap_traceback dpTable weights i w sel =
           knap_traceback dpTable weights (i - 1)
             (if dpTable ! i ! nat w \<noteq> dpTable ! (i - 1) ! nat w
              then w - int (weights ! (i - 1)) else w)
             (if dpTable ! i ! nat w \<noteq> dpTable ! (i - 1) ! nat w then sel @ [i] else sel)"
  using assms by (subst knap_traceback.simps) simp

lemma knap_traceback_stop:
  "i \<le> 0 \<or> w \<le> 0 \<Longrightarrow> knap_traceback dpTable weights i w sel = sel"
  by (subst knap_traceback.simps) auto

lemma knap_accept_eq:
  assumes i: "0 < tb_i t" and w: "0 < tb_w t"
    and inc_def: "inc \<longleftrightarrow>
           dpTable ! tb_i t ! nat (tb_w t) \<noteq> dpTable ! (tb_i t - 1) ! nat (tb_w t)"
    and t2_def: "t2 = t\<lparr>tb_selected := (if inc then tb_selected t @ [tb_i t] else tb_selected t),
                   tb_i := tb_i t - 1,
                   tb_w := (if inc then tb_w t - int (weights ! (tb_i t - 1)) else tb_w t)\<rparr>"
  shows "knap_accept dpTable weights t =
           (if tb_i t2 \<le> 0 \<or> tb_w t2 \<le> 0 then knap_completeTraceback t2 else t2)"
proof -
  have n: "nat (int (tb_i t) - 1) = tb_i t - 1" by simp
  show ?thesis
  proof (cases inc)
    case True
    then show ?thesis
      unfolding knap_accept_def knap_expected_def Let_def t2_def inc_def[symmetric]
      by (simp add: n)
  next
    case False
    then show ?thesis
      unfolding knap_accept_def knap_expected_def Let_def t2_def inc_def[symmetric]
      by (simp add: n)
  qed
qed

lemma knap_accept_inv:
  assumes i: "0 < tb_i t" and w: "0 < tb_w t" and nc: "\<not> tb_complete t"
    and inv: "knap_walk_inv dpTable weights tb t"
  shows "knap_walk_inv dpTable weights tb (knap_accept dpTable weights t)"
    and "tb_i (knap_accept dpTable weights t) = tb_i t - 1"
proof -
  define inc where
    "inc \<longleftrightarrow> dpTable ! tb_i t ! nat (tb_w t) \<noteq> dpTable ! (tb_i t - 1) ! nat (tb_w t)"
  define t2 where
    "t2 = t\<lparr>tb_selected := (if inc then tb_selected t @ [tb_i t] else tb_selected t),
            tb_i := tb_i t - 1,
            tb_w := (if inc then tb_w t - int (weights ! (tb_i t - 1)) else tb_w t)\<rparr>"
  have acc: "knap_accept dpTable weights t =
      (if tb_i t2 \<le> 0 \<or> tb_w t2 \<le> 0 then knap_completeTraceback t2 else t2)"
    by (rule knap_accept_eq[OF i w inc_def t2_def])
  have f: "tb_i t2 = tb_i t - 1" "\<not> tb_complete t2"
    "tb_selected t2 = (if inc then tb_selected t @ [tb_i t] else tb_selected t)"
    "tb_w t2 = (if inc then tb_w t - int (weights ! (tb_i t - 1)) else tb_w t)"
    unfolding t2_def using nc by simp_all
  have "knap_traceback dpTable weights (tb_i t) (tb_w t) (tb_selected t) = tb"
    using inv nc unfolding knap_walk_inv_def by simp
  then have tb: "knap_traceback dpTable weights (tb_i t2) (tb_w t2) (tb_selected t2) = tb"
    unfolding f knap_traceback_step[OF i w] inc_def .
  show "tb_i (knap_accept dpTable weights t) = tb_i t - 1"
    unfolding acc using f(1) by (simp add: knap_completeTraceback_def)
  show "knap_walk_inv dpTable weights tb (knap_accept dpTable weights t)"
  proof (cases "tb_i t2 \<le> 0 \<or> tb_w t2 \<le> 0")
    case True
    have "tb_selected t2 = tb"
      using tb knap_traceback_stop[OF True] by simp
    then show ?thesis
      unfolding acc knap_walk_inv_def using True by (simp add: knap_completeTraceback_def)
  next
    case False
    then show ?thesis
      unfolding acc knap_walk_inv_def using tb f(2) by simp
  qed
qed

lemma knap_click_inv:
  assumes "knap_walk_inv dpTable weights tb t"
  shows "knap_walk_inv dpTable weights tb (knap_click dpTable weights cell t)"
proof (cases "tb_complete t")
  case True
  then show ?thesis using assms by (simp add: knap_click_def)
next
  case nc: False
  show ?thesis
  proof (cases "tb_i t \<le> 0 \<or> tb_w t \<le> 0")
    case True
    have "tb_selected t = tb"
      using assms nc knap_traceback_stop[OF True] unfolding knap_walk_inv_def by simp
    then show ?thesis
      using nc True
      by (simp add: knap_click_def knap_processStep_def knap_completeTraceback_def
          knap_walk_inv_def)
  next
    case False
    then have iw: "0 < tb_i t" "0 < tb_w t" by simp_all
    show ?thesis
      using knap_accept_inv(1)[OF iw nc assms] assms nc False
      by (simp add: knap_click_def knap_processStep_def)
  qed
qed

lemma knap_clicks_inv:
  "knap_walk_inv dpTable weights tb t \<Longrightarrow>
   knap_walk_inv dpTable weights tb (fold (knap_click dpTable weights) clicks t)"
  by (induction clicks arbitrary: t) (simp_all add: knap_click_inv)

lemma knap_expected_inv:
  "knap_walk_inv dpTable weights tb t \<Longrightarrow>
   knap_walk_inv dpTable weights tb ((knap_click_expected dpTable weights ^^ k) t)"
  by (induction k) (simp_all add: knap_click_expected_def knap_click_inv)

lemma knap_start_inv:
  "knap_walk_inv dpTable weights
     (knap_traceback dpTable weights (length weights) (int capacity) [])
     (knap_monk_start weights capacity)"
  by (simp add: knap_walk_inv_def knap_monk_start_def)

lemma knap_complete_stays:
  "tb_complete t \<Longrightarrow> tb_complete ((knap_click_expected dpTable weights ^^ k) t)"
  by (induction k) (simp_all add: knap_click_expected_def knap_click_def)

lemma knap_click_expected_cases:
  assumes "\<not> tb_complete (knap_click_expected dpTable weights t)"
  shows "tb_i (knap_click_expected dpTable weights t) = tb_i t - 1 \<and> 0 < tb_i t"
proof -
  have nc: "\<not> tb_complete t"
    using assms by (auto simp: knap_click_expected_def knap_click_def)
  have iw: "0 < tb_i t" "0 < tb_w t"
    using assms nc
    by (auto simp: knap_click_expected_def knap_click_def knap_processStep_def
        knap_completeTraceback_def split: if_splits)
  have "knap_click_expected dpTable weights t = knap_accept dpTable weights t"
    using nc iw by (simp add: knap_click_expected_def knap_click_def knap_processStep_def)
  moreover have "knap_walk_inv dpTable weights
      (knap_traceback dpTable weights (tb_i t) (tb_w t) (tb_selected t)) t"
    using nc by (simp add: knap_walk_inv_def)
  ultimately show ?thesis using knap_accept_inv(2)[OF iw nc] iw by simp
qed

lemma knap_expected_completes:
  "tb_i t \<le> k \<Longrightarrow> tb_complete ((knap_click_expected dpTable weights ^^ Suc k) t)"
proof (induction k arbitrary: t)
  case 0
  show ?case using knap_click_expected_cases[of dpTable weights t] 0 by auto
next
  case (Suc k)
  let ?t = "knap_click_expected dpTable weights t"
  have e: "(knap_click_expected dpTable weights ^^ Suc (Suc k)) t =
           (knap_click_expected dpTable weights ^^ Suc k) ?t"
    by (simp only: funpow_Suc_right o_apply)
  show ?case
  proof (cases "tb_complete ?t")
    case True
    then show ?thesis unfolding e by (rule knap_complete_stays)
  next
    case False
    from knap_click_expected_cases[OF False] Suc.prems have "tb_i ?t \<le> k" by simp
    then show ?thesis unfolding e by (rule Suc.IH)
  qed
qed

text \<open>
  Claim C7. On the table solved by \<^verbatim>\<open>KnapsackSolver.solve()\<close>, the traceback walk from
  \<open>(n, capacity)\<close> selects items (1-based, pairwise distinct, between 1 and \<open>n\<close>) whose
  values sum to \<open>dp[n][capacity]\<close> and whose weights sum to at most the capacity. This
  holds of both walks: \<open>items\<close> is what the animated walk leaves in \<^verbatim>\<open>selectedItems\<close>;
  in monk mode every sequence of clicks that completes the traceback leaves the same
  \<open>items\<close>, and the learner who clicks the expected cell completes it within
  \<open>n + 1\<close> clicks.
\<close>

theorem knapsack_traceback_valid:
  assumes "length values = length weights"
    and "t = dp (knap_solve capacity weights values)"
    and "items = knap_selected t weights capacity"
    and "learner = (knap_click_expected t weights ^^ Suc (length weights))
                     (knap_monk_start weights capacity)"
  shows "(\<Sum>k\<leftarrow>items. values ! (k - 1)) = t ! length weights ! capacity \<and>
         (\<Sum>k\<leftarrow>items. weights ! (k - 1)) \<le> capacity \<and>
         distinct items \<and> (\<forall>k\<in>set items. 1 \<le> k \<and> k \<le> length weights) \<and>
         (tb_complete (knap_monk_run t weights capacity clicks) \<longrightarrow>
            tb_selected (knap_monk_run t weights capacity clicks) = items) \<and>
         tb_complete learner \<and> tb_selected learner = items"
proof -
  let ?n = "length weights"
  let ?tb = "knap_traceback t weights ?n (int capacity) []"
  have tab: "\<And>a b. a \<le> ?n \<Longrightarrow> b \<le> capacity \<Longrightarrow> t ! a ! b = knap_rec weights values a b"
    unfolding assms(2) by (rule knap_solve_table)
  have "\<forall>a b. a \<le> ?n \<longrightarrow> b \<le> capacity \<longrightarrow> t ! a ! b = knap_rec weights values a b"
    using tab by blast
  from knap_traceback_sums[OF this, of ?n "int capacity" "[]"]
  have s: "(\<Sum>k\<leftarrow>?tb. values ! (k - 1)) = knap_rec weights values ?n capacity"
    "(\<Sum>k\<leftarrow>?tb. int (weights ! (k - 1))) \<le> int capacity" by simp_all
  have "int (\<Sum>k\<leftarrow>items. weights ! (k - 1)) = (\<Sum>k\<leftarrow>items. int (weights ! (k - 1)))"
    by (induction items) auto
  also have "\<dots> \<le> int capacity"
    unfolding assms(3) knap_selected_def sum_list_sort using s(2) .
  finally have w: "(\<Sum>k\<leftarrow>items. weights ! (k - 1)) \<le> capacity" by simp
  have v: "(\<Sum>k\<leftarrow>items. values ! (k - 1)) = t ! ?n ! capacity"
    unfolding assms(3) knap_selected_def sum_list_sort using s(1) tab[of ?n capacity] by simp
  from knap_traceback_items[of "[]" ?n ?n t weights "int capacity"]
  have d: "distinct items" "\<forall>k\<in>set items. 1 \<le> k \<and> k \<le> ?n"
    unfolding assms(3) knap_selected_def by simp_all
  have it: "items = sort ?tb" unfolding assms(3) knap_selected_def ..
  have "knap_walk_inv t weights ?tb (knap_monk_run t weights capacity clicks)"
    unfolding knap_monk_run_def by (intro knap_clicks_inv knap_start_inv)
  then have m: "tb_complete (knap_monk_run t weights capacity clicks) \<longrightarrow>
      tb_selected (knap_monk_run t weights capacity clicks) = items"
    unfolding knap_walk_inv_def it by simp
  have lc: "tb_complete learner"
    unfolding assms(4) by (rule knap_expected_completes) (simp add: knap_monk_start_def)
  have "knap_walk_inv t weights ?tb learner"
    unfolding assms(4) by (intro knap_expected_inv knap_start_inv)
  with lc have ls: "tb_selected learner = items"
    unfolding knap_walk_inv_def it by simp
  from v w d m lc ls show ?thesis by blast
qed

lemma knap_ex_table:
  "dp (knap_solve 5 [2, 3, 4, 5] [3, 4, 5, 6]) =
     [[0, 0, 0, 0, 0, 0], [0, 0, 3, 3, 3, 3], [0, 0, 3, 4, 4, 7], [0, 0, 3, 4, 5, 7],
      [0, 0, 3, 4, 5, 7]]"
  by code_simp

lemma knap_ex_selected:
  "knap_selected [[0, 0, 0, 0, 0, 0], [0, 0, 3, 3, 3, 3], [0, 0, 3, 4, 4, 7], [0, 0, 3, 4, 5, 7],
      [0, 0, 3, 4, 5, 7]] [2, 3, 4, 5] 5 = [1, 2]"
  by code_simp

lemma knap_ex_monk:
  "knap_monk_run [[0, 0, 0, 0, 0, 0], [0, 0, 3, 3, 3, 3], [0, 0, 3, 4, 4, 7], [0, 0, 3, 4, 5, 7],
      [0, 0, 3, 4, 5, 7]] [2, 3, 4, 5] 5 [(3, 5), (0, 0), (2, 5), (1, 2), (0, 0)] =
     \<lparr>tb_i = 0, tb_w = 0, tb_selected = [1, 2], tb_complete = True\<rparr>"
  by (simp add: knap_monk_run_def knap_monk_start_def knap_click_def knap_processStep_def
      knap_expected_def knap_accept_def knap_completeTraceback_def Let_def)

lemma knap_ex_learner:
  "(knap_click_expected [[0, 0, 0, 0, 0, 0], [0, 0, 3, 3, 3, 3], [0, 0, 3, 4, 4, 7],
      [0, 0, 3, 4, 5, 7], [0, 0, 3, 4, 5, 7]] [2, 3, 4, 5] ^^ Suc (length [2, 3, 4, 5 :: nat]))
     (knap_monk_start [2, 3, 4, 5] 5) =
     \<lparr>tb_i = 0, tb_w = 0, tb_selected = [1, 2], tb_complete = True\<rparr>"
  by (simp add: knap_click_expected_def knap_monk_start_def knap_click_def knap_processStep_def
      knap_expected_def knap_accept_def knap_completeTraceback_def Let_def)

theorem knapsack_traceback_valid_witness:
  "length [3, 4, 5, 6 :: int] = length [2, 3, 4, 5 :: nat] \<and>
   knap_selected (dp (knap_solve 5 [2, 3, 4, 5] [3, 4, 5, 6])) [2, 3, 4, 5] 5 = [1, 2] \<and>
   (\<Sum>k\<leftarrow>[1, 2]. [3, 4, 5, 6 :: int] ! (k - 1)) = dp (knap_solve 5 [2, 3, 4, 5] [3, 4, 5, 6]) ! 4 ! 5 \<and>
   (\<Sum>k\<leftarrow>[1, 2]. [2, 3, 4, 5 :: nat] ! (k - 1)) \<le> 5 \<and>
   tb_complete (knap_monk_run (dp (knap_solve 5 [2, 3, 4, 5] [3, 4, 5, 6])) [2, 3, 4, 5] 5
     [(3, 5), (0, 0), (2, 5), (1, 2), (0, 0)]) \<and>
   tb_selected (knap_monk_run (dp (knap_solve 5 [2, 3, 4, 5] [3, 4, 5, 6])) [2, 3, 4, 5] 5
     [(3, 5), (0, 0), (2, 5), (1, 2), (0, 0)]) = [1, 2] \<and>
   tb_selected ((knap_click_expected (dp (knap_solve 5 [2, 3, 4, 5] [3, 4, 5, 6])) [2, 3, 4, 5] ^^
       Suc (length [2, 3, 4, 5 :: nat])) (knap_monk_start [2, 3, 4, 5] 5)) = [1, 2]"
proof -
  let ?T = "[[0, 0, 0, 0, 0, 0], [0, 0, 3, 3, 3, 3], [0, 0, 3, 4, 4, 7], [0, 0, 3, 4, 5, 7],
      [0, 0, 3, 4, 5, 7 :: int]]"
  let ?L = "\<lparr>tb_i = 0, tb_w = 0, tb_selected = [1, 2], tb_complete = True\<rparr>"
  have h: "length [3, 4, 5, 6 :: int] = length [2, 3, 4, 5 :: nat]" by simp
  from knapsack_traceback_valid [OF h knap_ex_table[symmetric] knap_ex_selected[symmetric]
      knap_ex_learner[symmetric], of "[(3, 5), (0, 0), (2, 5), (1, 2), (0, 0)]"]
  have "(\<Sum>k\<leftarrow>[1, 2]. [3, 4, 5, 6 :: int] ! (k - 1)) = ?T ! length [2, 3, 4, 5 :: nat] ! 5"
    "(\<Sum>k\<leftarrow>[1, 2]. [2, 3, 4, 5 :: nat] ! (k - 1)) \<le> 5"
    "tb_complete (knap_monk_run ?T [2, 3, 4, 5] 5 [(3, 5), (0, 0), (2, 5), (1, 2), (0, 0)]) \<longrightarrow>
     tb_selected (knap_monk_run ?T [2, 3, 4, 5] 5 [(3, 5), (0, 0), (2, 5), (1, 2), (0, 0)]) = [1, 2]"
    "tb_selected ?L = [1, 2]"
    by blast+
  then show ?thesis
    unfolding knap_ex_table knap_ex_selected knap_ex_monk knap_ex_learner by simp
qed

section \<open>LCSSolver\<close>

text \<open>
  The two strings are lists of code units of any type \<open>'c\<close>; \<^verbatim>\<open>rows\<close> and \<^verbatim>\<open>cols\<close> are
  their lengths. Every read \<^verbatim>\<open>str1[row - 1]\<close>, \<^verbatim>\<open>str2[col - 1]\<close> of the solver is in range.
\<close>

datatype 'c ldescr =
    LBaseCase
  | LMatch 'c 'c
  | LMatchFound int
  | LNoMatch 'c 'c
  | LMaxValue int

definition lcs_handleBaseCell :: "nat \<Rightarrow> nat \<Rightarrow> 'c ldescr tstate \<Rightarrow> 'c ldescr tstate" where
  "lcs_handleBaseCell r c s =
     push \<lparr>row = r, col = c, stype = Update, val = Some 0,
           description = LBaseCase, highlight = None\<rparr>
          (s\<lparr>dp := set_cell (dp s) r c 0\<rparr>)"

definition lcs_recordMatch ::
  "nat \<Rightarrow> nat \<Rightarrow> 'c \<Rightarrow> 'c \<Rightarrow> 'c ldescr tstate \<Rightarrow> 'c ldescr tstate" where
  "lcs_recordMatch r c char1 char2 s =
     (let s1 = push \<lparr>row = r, col = c, stype = Inspect, val = None,
                     description = LMatch char1 char2,
                     highlight = Some [(r - 1, c - 1)]\<rparr> s;
          s2 = s1\<lparr>dp := set_cell (dp s1) r c (1 + dp s1 ! (r - 1) ! (c - 1))\<rparr>
      in push \<lparr>row = r, col = c, stype = Update, val = Some (dp s2 ! r ! c),
               description = LMatchFound (dp s2 ! r ! c),
               highlight = Some [(r - 1, c - 1)]\<rparr> s2)"

definition lcs_recordMismatch ::
  "nat \<Rightarrow> nat \<Rightarrow> 'c \<Rightarrow> 'c \<Rightarrow> 'c ldescr tstate \<Rightarrow> 'c ldescr tstate" where
  "lcs_recordMismatch r c char1 char2 s =
     push \<lparr>row = r, col = c, stype = Inspect, val = None,
           description = LNoMatch char1 char2,
           highlight = Some [(r - 1, c), (r, c - 1)]\<rparr> s"

definition lcs_recordMismatchResult :: "nat \<Rightarrow> nat \<Rightarrow> 'c ldescr tstate \<Rightarrow> 'c ldescr tstate" where
  "lcs_recordMismatchResult r c s =
     (let topVal = dp s ! (r - 1) ! c;
          leftVal = dp s ! r ! (c - 1)
      in push \<lparr>row = r, col = c, stype = Update, val = Some (dp s ! r ! c),
               description = LMaxValue (dp s ! r ! c),
               highlight = (if topVal > leftVal then Some [(r - 1, c)]
                            else Some [(r, c - 1)])\<rparr> s)"

definition lcs_handleDecisionCell ::
  "'c list \<Rightarrow> 'c list \<Rightarrow> nat \<Rightarrow> nat \<Rightarrow> 'c ldescr tstate \<Rightarrow> 'c ldescr tstate" where
  "lcs_handleDecisionCell str1 str2 r c s =
     (let char1 = str1 ! (r - 1);
          char2 = str2 ! (c - 1)
      in if char1 = char2 then lcs_recordMatch r c char1 char2 s
         else
           let s1 = lcs_recordMismatch r c char1 char2 s;
               s2 = s1\<lparr>dp := set_cell (dp s1) r c
                                 (max (dp s1 ! (r - 1) ! c) (dp s1 ! r ! (c - 1)))\<rparr>
           in lcs_recordMismatchResult r c s2)"

definition lcs_cell ::
  "'c list \<Rightarrow> 'c list \<Rightarrow> nat \<Rightarrow> nat \<Rightarrow> 'c ldescr tstate \<Rightarrow> 'c ldescr tstate" where
  "lcs_cell str1 str2 i j s =
     (if i = 0 \<or> j = 0 then lcs_handleBaseCell i j s
      else lcs_handleDecisionCell str1 str2 i j s)"

definition lcs_row ::
  "'c list \<Rightarrow> 'c list \<Rightarrow> nat \<Rightarrow> 'c ldescr tstate \<Rightarrow> 'c ldescr tstate" where
  "lcs_row str1 str2 i s = fold (lcs_cell str1 str2 i) [0..<Suc (length str2)] s"

definition lcs_buildTable :: "'c list \<Rightarrow> 'c list \<Rightarrow> 'c ldescr tstate \<Rightarrow> 'c ldescr tstate" where
  "lcs_buildTable str1 str2 s = fold (lcs_row str1 str2) [0..<Suc (length str1)] s"

definition lcs_solve :: "'c list \<Rightarrow> 'c list \<Rightarrow> 'c ldescr tstate" where
  "lcs_solve str1 str2 = lcs_buildTable str1 str2 (resetState (length str1) (length str2))"

subsection \<open>The LCS recurrence and the loop invariant\<close>

fun lcs_rec :: "'c list \<Rightarrow> 'c list \<Rightarrow> nat \<Rightarrow> nat \<Rightarrow> int" where
  "lcs_rec x y 0 j = 0"
| "lcs_rec x y (Suc i) 0 = 0"
| "lcs_rec x y (Suc i) (Suc j) =
     (if x ! i = y ! j then 1 + lcs_rec x y i j
      else max (lcs_rec x y i (Suc j)) (lcs_rec x y (Suc i) j))"

definition lcs_cell_steps :: "'c list \<Rightarrow> 'c list \<Rightarrow> nat \<Rightarrow> nat \<Rightarrow> 'c ldescr tstep list" where
  "lcs_cell_steps x y i j =
     (if i = 0 \<or> j = 0 then
        [\<lparr>row = i, col = j, stype = Update, val = Some 0,
          description = LBaseCase, highlight = None\<rparr>]
      else if x ! (i - 1) = y ! (j - 1) then
        [\<lparr>row = i, col = j, stype = Inspect, val = None,
          description = LMatch (x ! (i - 1)) (y ! (j - 1)), highlight = Some [(i - 1, j - 1)]\<rparr>,
         \<lparr>row = i, col = j, stype = Update, val = Some (lcs_rec x y i j),
          description = LMatchFound (lcs_rec x y i j), highlight = Some [(i - 1, j - 1)]\<rparr>]
      else
        [\<lparr>row = i, col = j, stype = Inspect, val = None,
          description = LNoMatch (x ! (i - 1)) (y ! (j - 1)),
          highlight = Some [(i - 1, j), (i, j - 1)]\<rparr>,
         \<lparr>row = i, col = j, stype = Update, val = Some (lcs_rec x y i j),
          description = LMaxValue (lcs_rec x y i j),
          highlight = (if lcs_rec x y (i - 1) j > lcs_rec x y i (j - 1)
                       then Some [(i - 1, j)] else Some [(i, j - 1)])\<rparr>])"

definition lcs_row_steps :: "'c list \<Rightarrow> 'c list \<Rightarrow> nat \<Rightarrow> 'c ldescr tstep list" where
  "lcs_row_steps x y i = concat (map (lcs_cell_steps x y i) [0..<Suc (length y)])"

lemma lcs_cell_eq:
  assumes d: "table_dims n C (dp s)" and f: "filled (lcs_rec x y) n C i k (dp s)"
    and i: "i \<le> n" and k: "k \<le> C"
  shows "lcs_cell x y i k s =
     \<lparr>dp = set_cell (dp s) i k (lcs_rec x y i k), steps = steps s @ lcs_cell_steps x y i k\<rparr>"
proof (cases "i = 0 \<or> k = 0")
  case True
  then have "lcs_rec x y i k = 0" by (cases i; cases k) auto
  with True show ?thesis
    by (simp add: lcs_cell_def lcs_handleBaseCell_def push_def lcs_cell_steps_def)
next
  case False
  then obtain a b where a: "i = Suc a" and b: "k = Suc b" by (cases i; cases k) auto
  have prev: "dp s ! a ! k = lcs_rec x y a k" "dp s ! a ! b = lcs_rec x y a b"
    "dp s ! i ! b = lcs_rec x y i b"
    using f i k a b unfolding filled_def by auto
  have self: "\<And>v. set_cell (dp s) i k v ! i ! k = v"
    using d i k by (simp add: set_cell_nth)
  have other: "\<And>v. set_cell (dp s) i k v ! a ! k = dp s ! a ! k"
    "\<And>v. set_cell (dp s) i k v ! i ! b = dp s ! i ! b"
    using d i k a b by (simp_all add: set_cell_nth)
  show ?thesis
  proof (cases "x ! a = y ! b")
    case True
    with False a b prev self show ?thesis
      by (simp add: lcs_cell_def lcs_handleDecisionCell_def lcs_recordMatch_def
          push_def lcs_cell_steps_def Let_def)
  next
    case ne: False
    with False a b prev self other show ?thesis
      by (simp add: lcs_cell_def lcs_handleDecisionCell_def lcs_recordMismatch_def
          lcs_recordMismatchResult_def push_def lcs_cell_steps_def Let_def)
  qed
qed

lemma lcs_row_aux:
  assumes d: "table_dims n C (dp s)" and f: "filled (lcs_rec x y) n C i 0 (dp s)"
    and i: "i \<le> n"
  shows "k \<le> Suc C \<Longrightarrow>
     table_dims n C (dp (fold (lcs_cell x y i) [0..<k] s)) \<and>
     filled (lcs_rec x y) n C i k (dp (fold (lcs_cell x y i) [0..<k] s)) \<and>
     steps (fold (lcs_cell x y i) [0..<k] s) =
       steps s @ concat (map (lcs_cell_steps x y i) [0..<k])"
proof (induction k)
  case 0
  from d f show ?case by simp
next
  case (Suc k)
  let ?s = "fold (lcs_cell x y i) [0..<k] s"
  from Suc have ih: "table_dims n C (dp ?s)" "filled (lcs_rec x y) n C i k (dp ?s)"
    "steps ?s = steps s @ concat (map (lcs_cell_steps x y i) [0..<k])" and k: "k \<le> C"
    by simp_all
  have "fold (lcs_cell x y i) [0..<Suc k] s = lcs_cell x y i k ?s" by (rule fold_upt_Suc)
  also have "\<dots> = \<lparr>dp = set_cell (dp ?s) i k (lcs_rec x y i k),
                     steps = steps ?s @ lcs_cell_steps x y i k\<rparr>"
    by (rule lcs_cell_eq[OF ih(1) ih(2) i k])
  finally have eq: "fold (lcs_cell x y i) [0..<Suc k] s =
      \<lparr>dp = set_cell (dp ?s) i k (lcs_rec x y i k),
       steps = steps ?s @ lcs_cell_steps x y i k\<rparr>" .
  show ?case
    unfolding eq using ih i k
    by (simp add: set_cell_dims filled_step)
qed

lemma lcs_rows:
  assumes d: "table_dims n (length y) (dp s)"
  shows "m \<le> Suc n \<Longrightarrow>
     table_dims n (length y) (dp (fold (lcs_row x y) [0..<m] s)) \<and>
     filled (lcs_rec x y) n (length y) m 0 (dp (fold (lcs_row x y) [0..<m] s)) \<and>
     steps (fold (lcs_row x y) [0..<m] s) =
       steps s @ concat (map (lcs_row_steps x y) [0..<m])"
proof (induction m)
  case 0
  from d show ?case by (simp add: filled_def)
next
  case (Suc m)
  let ?s = "fold (lcs_row x y) [0..<m] s"
  from Suc have ih: "table_dims n (length y) (dp ?s)" "filled (lcs_rec x y) n (length y) m 0 (dp ?s)"
    "steps ?s = steps s @ concat (map (lcs_row_steps x y) [0..<m])" and m: "m \<le> n"
    by simp_all
  have eq: "fold (lcs_row x y) [0..<Suc m] s =
      fold (lcs_cell x y m) [0..<Suc (length y)] ?s"
    unfolding fold_upt_Suc lcs_row_def ..
  from lcs_row_aux[OF ih(1) ih(2) m, of "Suc (length y)"] ih(3)
  show ?case unfolding eq concat_map_upt_Suc lcs_row_steps_def
    by (simp add: filled_next_row del: upt_Suc)
qed

lemma lcs_solve_table:
  "i \<le> length x \<Longrightarrow> j \<le> length y \<Longrightarrow> dp (lcs_solve x y) ! i ! j = lcs_rec x y i j"
  using lcs_rows[OF resetState_dims, of "Suc (length x)" "length x" y x]
  unfolding lcs_solve_def lcs_buildTable_def filled_def by simp

lemma lcs_solve_steps:
  "steps (lcs_solve x y) = concat (map (lcs_row_steps x y) [0..<Suc (length x)])"
  using lcs_rows[OF resetState_dims, of "Suc (length x)" "length x" y x]
  unfolding lcs_solve_def lcs_buildTable_def by (simp add: resetState_def)

subsection \<open>The trace of the LCS solver\<close>

lemma lcs_cell_steps_pos:
  "st \<in> set (lcs_cell_steps x y i j) \<Longrightarrow> row st = i \<and> col st = j"
  by (auto simp: lcs_cell_steps_def split: if_splits)

lemma lcs_cell_steps_update:
  assumes "st \<in> set (lcs_cell_steps x y (Suc a) (Suc b))" "stype st = Update" "x ! a \<noteq> y ! b"
  shows "val st = Some (lcs_rec x y (Suc a) (Suc b)) \<and>
         highlight st = (if lcs_rec x y a (Suc b) > lcs_rec x y (Suc a) b
                         then Some [(a, Suc b)] else Some [(Suc a, b)])"
  using assms by (auto simp: lcs_cell_steps_def split: if_splits)

lemma lcs_step_cell:
  assumes "st \<in> set (steps (lcs_solve x y))"
  shows "row st \<le> length x \<and> col st \<le> length y \<and>
         st \<in> set (lcs_cell_steps x y (row st) (col st))"
proof -
  from assms obtain i j where i: "i < Suc (length x)" and j: "j < Suc (length y)"
    and st: "st \<in> set (lcs_cell_steps x y i j)"
    unfolding lcs_solve_steps lcs_row_steps_def by (auto simp del: upt_Suc)
  from lcs_cell_steps_pos[OF st] i j st show ?thesis by auto
qed

text \<open>
  Claim C3, as the code has it. In a mismatch cell of the LCS solver the committed
  \<^verbatim>\<open>'update'\<close> step carries the cell's value \<open>max dp[i-1][j] dp[i][j-1]\<close>, and its highlight
  is the top cell \<open>(i-1, j)\<close> only when \<open>dp[i-1][j]\<close> is strictly greater than
  \<open>dp[i][j-1]\<close>; when the two are equal it is the left cell \<open>(i, j-1)\<close>
  (\<^verbatim>\<open>topVal > leftVal ? top : left\<close> in \<^verbatim>\<open>_recordMismatchResult\<close>).
\<close>

theorem lcs_mismatch_highlight:
  assumes st: "st \<in> set (steps (lcs_solve str1 str2))"
    and upd: "stype st = Update"
    and dec: "1 \<le> row st" "1 \<le> col st"
    and ne: "str1 ! (row st - 1) \<noteq> str2 ! (col st - 1)"
    and t: "t = dp (lcs_solve str1 str2)"
    and top: "topVal = t ! (row st - 1) ! col st"
    and left: "leftVal = t ! row st ! (col st - 1)"
  shows "val st = Some (t ! row st ! col st) \<and>
         t ! row st ! col st = max topVal leftVal \<and>
         highlight st = Some [if topVal > leftVal then (row st - 1, col st)
                              else (row st, col st - 1)] \<and>
         (topVal = leftVal \<longrightarrow> highlight st = Some [(row st, col st - 1)])"
proof -
  from lcs_step_cell[OF st] have r: "row st \<le> length str1" and c: "col st \<le> length str2"
    and m: "st \<in> set (lcs_cell_steps str1 str2 (row st) (col st))" by auto
  from dec obtain a b where a: "row st = Suc a" and b: "col st = Suc b"
    by (cases "row st"; cases "col st") auto
  have tab: "t ! Suc a ! Suc b = lcs_rec str1 str2 (Suc a) (Suc b)"
    "t ! a ! Suc b = lcs_rec str1 str2 a (Suc b)"
    "t ! Suc a ! b = lcs_rec str1 str2 (Suc a) b"
    using r c a b unfolding t by (simp_all add: lcs_solve_table del: lcs_rec.simps)
  from ne a b have ne': "str1 ! a \<noteq> str2 ! b" by simp
  from lcs_cell_steps_update[OF m[unfolded a b] upd ne']
  have "val st = Some (lcs_rec str1 str2 (Suc a) (Suc b))"
    "highlight st = (if lcs_rec str1 str2 a (Suc b) > lcs_rec str1 str2 (Suc a) b
                         then Some [(a, Suc b)] else Some [(Suc a, b)])"
    by auto
  moreover have "lcs_rec str1 str2 (Suc a) (Suc b) =
      max (lcs_rec str1 str2 a (Suc b)) (lcs_rec str1 str2 (Suc a) b)"
    using ne' by simp
  ultimately show ?thesis using a b tab top left by (auto simp del: lcs_rec.simps)
qed

lemma lcs_AB_steps:
  "steps (lcs_solve ''A'' ''B'') ! 4 =
     \<lparr>row = 1, col = 1, stype = Update, val = Some 0, description = LMaxValue 0,
      highlight = Some [(1, 0)]\<rparr>"
  by code_simp

lemma lcs_AB_table: "dp (lcs_solve ''A'' ''B'') = [[0, 0], [0, 0]]"
  by code_simp

lemma lcs_AB_len: "length (steps (lcs_solve ''A'' ''B'')) = 5"
  by code_simp

text \<open>
  Claim C3 as stated (a tie highlights the top cell) fails: for the strings \<open>A\<close> and
  \<open>B\<close> the cell \<open>(1, 1)\<close> is a mismatch with \<open>dp[0][1] = dp[1][0]\<close>, and its update
  step highlights the left cell \<open>(1, 0)\<close>, not the top cell \<open>(0, 1)\<close>.
\<close>

theorem lcs_tie_highlights_left:
  "steps (lcs_solve ''A'' ''B'') ! 4 \<in> set (steps (lcs_solve ''A'' ''B'')) \<and>
   stype (steps (lcs_solve ''A'' ''B'') ! 4) = Update \<and>
   row (steps (lcs_solve ''A'' ''B'') ! 4) = 1 \<and> col (steps (lcs_solve ''A'' ''B'') ! 4) = 1 \<and>
   ''A'' ! 0 \<noteq> ''B'' ! 0 \<and>
   dp (lcs_solve ''A'' ''B'') ! 0 ! 1 = dp (lcs_solve ''A'' ''B'') ! 1 ! 0 \<and>
   highlight (steps (lcs_solve ''A'' ''B'') ! 4) = Some [(1, 0)] \<and>
   highlight (steps (lcs_solve ''A'' ''B'') ! 4) \<noteq> Some [(0, 1)]"
proof -
  have "steps (lcs_solve ''A'' ''B'') ! 4 \<in> set (steps (lcs_solve ''A'' ''B''))"
    using lcs_AB_len by (intro nth_mem) simp
  then show ?thesis unfolding lcs_AB_steps lcs_AB_table by simp
qed

theorem lcs_mismatch_highlight_witness:
  "steps (lcs_solve ''A'' ''B'') ! 4 \<in> set (steps (lcs_solve ''A'' ''B'')) \<and>
   stype (steps (lcs_solve ''A'' ''B'') ! 4) = Update \<and>
   val (steps (lcs_solve ''A'' ''B'') ! 4) = Some (max 0 0) \<and>
   highlight (steps (lcs_solve ''A'' ''B'') ! 4) = Some [(1, 0)]"
proof -
  let ?st = "steps (lcs_solve ''A'' ''B'') ! 4"
  have mem: "?st \<in> set (steps (lcs_solve ''A'' ''B''))"
    using lcs_AB_len by (intro nth_mem) simp
  have h2: "stype ?st = Update" unfolding lcs_AB_steps by simp
  have h3: "1 \<le> row ?st" "1 \<le> col ?st" unfolding lcs_AB_steps by simp_all
  have h4: "''A'' ! (row ?st - 1) \<noteq> ''B'' ! (col ?st - 1)" unfolding lcs_AB_steps by simp
  from lcs_mismatch_highlight[OF mem h2 h3 h4 refl refl refl] mem h2
  show ?thesis unfolding lcs_AB_steps lcs_AB_table by simp
qed

section \<open>Step counts of the two table solvers\<close>

text \<open>
  \<open>grid rows cols\<close> lists the cells of a \<open>(rows + 1) \<times> (cols + 1)\<close> table in row-major
  order; a base cell is one in row 0 or column 0; \<open>cell_trace\<close> is what a cell
  contributes to the trace, seen through \<open>step_key\<close> (row, column and type of a step):
  one \<^verbatim>\<open>'update'\<close> for a base cell, an \<^verbatim>\<open>'inspect'\<close> followed by an \<^verbatim>\<open>'update'\<close>
  for any other cell.
\<close>

definition is_base :: "nat \<times> nat \<Rightarrow> bool" where
  "is_base c \<longleftrightarrow> fst c = 0 \<or> snd c = 0"

definition cell_trace :: "nat \<times> nat \<Rightarrow> (nat \<times> nat \<times> step_type) list" where
  "cell_trace c =
     (if is_base c then [(fst c, snd c, Update)]
      else [(fst c, snd c, Inspect), (fst c, snd c, Update)])"

definition step_key :: "'d tstep \<Rightarrow> nat \<times> nat \<times> step_type" where
  "step_key st = (row st, col st, stype st)"

definition grid :: "nat \<Rightarrow> nat \<Rightarrow> (nat \<times> nat) list" where
  "grid rows cols = List.product [0..<Suc rows] [0..<Suc cols]"

lemma knap_cell_trace: "map step_key (knap_cell_steps ws vs i w) = cell_trace (i, w)"
  by (simp add: knap_cell_steps_def cell_trace_def step_key_def is_base_def)

lemma lcs_cell_trace: "map step_key (lcs_cell_steps x y i j) = cell_trace (i, j)"
  by (simp add: lcs_cell_steps_def cell_trace_def step_key_def is_base_def)

lemma concat_map_product:
  "concat (map g (List.product xs ys)) = concat (map (\<lambda>x. concat (map (\<lambda>y. g (x, y)) ys)) xs)"
  by (induction xs) (simp_all add: comp_def)

lemma knap_trace:
  "map step_key (steps (knap_solve C ws vs)) = concat (map cell_trace (grid (length ws) C))"
  unfolding knap_solve_steps knap_row_steps_def grid_def concat_map_product
  by (simp add: map_concat comp_def knap_cell_trace del: upt_Suc)

lemma lcs_trace:
  "map step_key (steps (lcs_solve x y)) = concat (map cell_trace (grid (length x) (length y)))"
  unfolding lcs_solve_steps lcs_row_steps_def grid_def concat_map_product
  by (simp add: map_concat comp_def lcs_cell_trace del: upt_Suc)

lemma length_cell_traces:
  "length (concat (map cell_trace cs)) + length (filter is_base cs) = 2 * length cs"
  by (induction cs) (simp_all add: cell_trace_def)

lemma length_grid: "length (grid rows cols) = (rows + 1) * (cols + 1)"
  by (simp add: grid_def)

lemma filter_base_row0: "length (filter is_base (map (Pair 0) cs)) = length cs"
  by (induction cs) (simp_all add: is_base_def)

lemma filter_base_rowS:
  "length (filter is_base (map (Pair (Suc i)) [0..<Suc C])) = 1"
proof -
  have "filter is_base (map (Pair (Suc i)) [0..<Suc C]) =
      map (Pair (Suc i)) (filter (\<lambda>w. w = 0) [0..<Suc C])"
    by (simp add: filter_map comp_def is_base_def del: upt_Suc)
  also have "filter (\<lambda>w. w = 0) [0..<Suc C] = [0]"
    by (induction C) auto
  finally show ?thesis by simp
qed

lemma base_count: "length (filter is_base (grid rows cols)) = rows + cols + 1"
proof -
  have "length (filter is_base (List.product [0..<Suc n] [0..<Suc cols])) = n + cols + 1" for n
  proof (induction n)
    case 0
    have "List.product [0..<Suc 0] [0..<Suc cols] = map (Pair 0) [0..<Suc cols]" by simp
    then show ?case by (simp only: filter_base_row0 length_upt)
  next
    case (Suc n)
    have "List.product [0..<Suc (Suc n)] [0..<Suc cols] =
        List.product [0..<Suc n] [0..<Suc cols] @ map (Pair (Suc n)) [0..<Suc cols]"
      by (simp add: product_concat_map del: upt_Suc add: upt_Suc_append)
    then have "length (filter is_base (List.product [0..<Suc (Suc n)] [0..<Suc cols])) =
        length (filter is_base (List.product [0..<Suc n] [0..<Suc cols])) +
        length (filter is_base (map (Pair (Suc n)) [0..<Suc cols]))"
      by (simp only: filter_append length_append)
    then show ?case unfolding Suc filter_base_rowS by simp
  qed
  then show ?thesis by (simp add: grid_def)
qed

text \<open>
  Claim C2. The steps returned by \<^verbatim>\<open>KnapsackSolver.solve()\<close> visit the
  \<open>(itemCount + 1) * (capacity + 1)\<close> cells in row-major order, one \<^verbatim>\<open>'update'\<close> step for
  each base cell and an \<^verbatim>\<open>'inspect'\<close> then an \<^verbatim>\<open>'update'\<close> step for each other cell, so
  their number is twice the number of cells minus the number of base cells (which is
  \<open>itemCount + capacity + 1\<close>). The same holds for \<^verbatim>\<open>LCSSolver.solve()\<close> over
  \<open>(m + 1) * (n + 1)\<close> cells.
\<close>

theorem step_count_invariants:
  "map step_key (steps (knap_solve capacity weights values)) =
     concat (map cell_trace (grid (length weights) capacity)) \<and>
   length (steps (knap_solve capacity weights values)) =
     2 * (length weights + 1) * (capacity + 1) - length (filter is_base (grid (length weights) capacity)) \<and>
   length (filter is_base (grid (length weights) capacity)) = length weights + capacity + 1 \<and>
   map step_key (steps (lcs_solve str1 str2)) =
     concat (map cell_trace (grid (length str1) (length str2))) \<and>
   length (steps (lcs_solve str1 str2)) =
     2 * (length str1 + 1) * (length str2 + 1) - length (filter is_base (grid (length str1) (length str2))) \<and>
   length (filter is_base (grid (length str1) (length str2))) = length str1 + length str2 + 1"
proof -
  have k: "length (steps (knap_solve capacity weights values)) =
      length (concat (map cell_trace (grid (length weights) capacity)))"
    using arg_cong[OF knap_trace, of length capacity weights "values"] by simp
  have l: "length (steps (lcs_solve str1 str2)) =
      length (concat (map cell_trace (grid (length str1) (length str2))))"
    using arg_cong[OF lcs_trace, of length str1 str2] by simp
  show ?thesis
    using k l length_cell_traces[of "grid (length weights) capacity"]
      length_cell_traces[of "grid (length str1) (length str2)"]
      length_grid[of "length weights" capacity] length_grid[of "length str1" "length str2"]
    by (simp add: knap_trace lcs_trace base_count)
qed

theorem step_count_invariants_witness:
  "length (steps (knap_solve 2 [2, 2] [3, 3])) = 13 \<and>
   length (steps (lcs_solve ''A'' ''B'')) = 5"
  using step_count_invariants [of 2 "[2, 2]" "[3, 3]" "''A''" "''B''"]
  by simp

section \<open>HeapSolver\<close>

text \<open>
  \<^verbatim>\<open>src/components/heap/solver.js\<close>. The solver's fields are \<^verbatim>\<open>originalArray\<close>,
  \<^verbatim>\<open>array\<close>, \<^verbatim>\<open>steps\<close> and the three counters that \<^verbatim>\<open>_stats()\<close> copies into every step.
  A step keeps its \<^verbatim>\<open>type\<close>, the snapshot \<^verbatim>\<open>array\<close>, the counters, the fields
  \<^verbatim>\<open>from\<close>, \<^verbatim>\<open>to\<close>, \<^verbatim>\<open>fromValue\<close>, \<^verbatim>\<open>toValue\<close> of swap steps (read back by
  \<^verbatim>\<open>getSwapSequence\<close>), and its description as a constructor holding the interpolated
  values; the highlight indices, which only the renderer reads, repeat those values.
  A read \<^verbatim>\<open>this.array[k]\<close> outside the array is \<^verbatim>\<open>undefined\<close> in the source: \<open>at\<close> returns
  \<open>None\<close> there, and a comparison with \<^verbatim>\<open>undefined\<close> is false (\<open>gt_at\<close>).
\<close>

record hstats =
  heapifyCalls :: nat
  swapCount :: nat
  recursiveCalls :: nat

datatype hdescr =
    HInit "int list"
  | HInfo int
  | HLoopStart nat "int option"
  | HLoopEnd nat "int list"
  | HComplete "int list"
  | HHeapifyStart nat nat "int option"
  | HCompare string nat "int option" "int option"
  | HSwapping nat "int option" nat "int option" nat
  | HAfterSwap nat "int list"
  | HRecurse nat nat
  | HNoSwap nat nat "int option"
  | HPreExtractBuild "int list"
  | HPreExtractComplete "int list"
  | HCannotExtract
  | HExtractInit int
  | HExtractSwapRoot "int option" nat
  | HExtractHeapifyStart
  | HExtractComplete int "int list"

record hstep =
  htype :: string
  harray :: "int list"
  hdescription :: hdescr
  hstats :: hstats
  hfrom :: "nat option"
  hto :: "nat option"
  hfromValue :: "int option"
  htoValue :: "int option"

record hstate =
  originalArray :: "int list"
  array :: "int list"
  hsteps :: "hstep list"
  counters :: hstats

definition at :: "'a list \<Rightarrow> nat \<Rightarrow> 'a option" where
  "at xs k = (if k < length xs then Some (xs ! k) else None)"

definition gt_at :: "int list \<Rightarrow> nat \<Rightarrow> nat \<Rightarrow> bool" where
  "gt_at xs a b \<longleftrightarrow> a < length xs \<and> b < length xs \<and> xs ! a > xs ! b"

text \<open>The constructor, \<^verbatim>\<open>_resetState\<close> and the common part of every \<^verbatim>\<open>steps.push\<close>.\<close>

definition newHeapSolver :: "int list \<Rightarrow> hstate" where
  "newHeapSolver xs =
     \<lparr>originalArray = xs, array = xs, hsteps = [],
      counters = \<lparr>heapifyCalls = 0, swapCount = 0, recursiveCalls = 0\<rparr>\<rparr>"

definition heap_resetState :: "hstate \<Rightarrow> hstate" where
  "heap_resetState s =
     s\<lparr>hsteps := [],
       counters := \<lparr>heapifyCalls = 0, swapCount = 0, recursiveCalls = 0\<rparr>,
       array := originalArray s\<rparr>"

definition record_step :: "string \<Rightarrow> hdescr \<Rightarrow> hstate \<Rightarrow> hstate" where
  "record_step ty d s =
     s\<lparr>hsteps := hsteps s @
         [\<lparr>htype = ty, harray = array s, hdescription = d, hstats = counters s,
           hfrom = None, hto = None, hfromValue = None, htoValue = None\<rparr>]\<rparr>"

definition recordInit :: "hstate \<Rightarrow> hstate" where
  "recordInit s = record_step ''init'' (HInit (array s)) s"

definition recordInfo :: "int \<Rightarrow> hstate \<Rightarrow> hstate" where
  "recordInfo startIndex s = record_step ''info'' (HInfo startIndex) s"

definition recordLoopStart :: "nat \<Rightarrow> hstate \<Rightarrow> hstate" where
  "recordLoopStart loopIndex s =
     record_step ''loop-start'' (HLoopStart loopIndex (at (array s) loopIndex)) s"

definition recordLoopEnd :: "nat \<Rightarrow> hstate \<Rightarrow> hstate" where
  "recordLoopEnd loopIndex s = record_step ''loop-end'' (HLoopEnd loopIndex (array s)) s"

definition recordComplete :: "hstate \<Rightarrow> hstate" where
  "recordComplete s = record_step ''complete'' (HComplete (array s)) s"

definition recordHeapifyStart :: "nat \<Rightarrow> nat \<Rightarrow> nat \<Rightarrow> nat \<Rightarrow> hstate \<Rightarrow> hstate" where
  "recordHeapifyStart i left right depth s =
     record_step ''heapify-start'' (HHeapifyStart depth i (at (array s) i)) s"

definition recordCompare :: "string \<Rightarrow> nat \<Rightarrow> nat \<Rightarrow> nat \<Rightarrow> hstate \<Rightarrow> hstate" where
  "recordCompare label index childIndex depth s =
     record_step ''compare''
       (HCompare label depth (at (array s) childIndex) (at (array s) index)) s"

definition recordSwap :: "nat \<Rightarrow> nat \<Rightarrow> nat \<Rightarrow> hstate \<Rightarrow> hstate" where
  "recordSwap i largest depth s =
     s\<lparr>hsteps := hsteps s @
         [\<lparr>htype = ''swap'', harray = array s,
           hdescription = HSwapping depth (at (array s) i) i (at (array s) largest) largest,
           hstats = counters s,
           hfrom = Some i, hto = Some largest,
           hfromValue = at (array s) i, htoValue = at (array s) largest\<rparr>]\<rparr>"

definition recordAfterSwap :: "nat \<Rightarrow> nat \<Rightarrow> hstate \<Rightarrow> hstate" where
  "recordAfterSwap largest depth s = record_step ''after-swap'' (HAfterSwap depth (array s)) s"

definition recordRecurse :: "nat \<Rightarrow> nat \<Rightarrow> nat \<Rightarrow> hstate \<Rightarrow> hstate" where
  "recordRecurse fromIndex toIndex depth s =
     record_step ''recurse'' (HRecurse depth toIndex) s"

definition recordNoSwap :: "nat \<Rightarrow> nat \<Rightarrow> hstate \<Rightarrow> hstate" where
  "recordNoSwap index depth s =
     record_step ''no-swap'' (HNoSwap depth index (at (array s) index)) s"

text \<open>
  \<^verbatim>\<open>_pickLargestChild\<close> returns the candidate and, through the state, the compare steps it
  recorded.
\<close>

definition pickLargestChild ::
  "nat \<Rightarrow> nat \<Rightarrow> nat \<Rightarrow> nat \<Rightarrow> nat \<Rightarrow> nat \<Rightarrow> hstate \<Rightarrow> nat \<times> hstate" where
  "pickLargestChild i left right heapSize largest depth s =
     (let candidate = largest;
          (candidate, s) =
             (if left < heapSize \<and> gt_at (array s) left candidate
              then (left, recordCompare ''Left'' i left depth s) else (candidate, s));
          (candidate, s) =
             (if right < heapSize \<and> gt_at (array s) right candidate
              then (right, recordCompare ''Right'' i right depth s) else (candidate, s))
      in (candidate, s))"

text \<open>
  \<^verbatim>\<open>_swapAndRecurse\<close> up to its recursive call: the swap step, the swap of the two
  elements (both in range, as the comparison that chose \<open>largest\<close> succeeded), the counter,
  and the two steps after it.
\<close>

definition swapElements :: "nat \<Rightarrow> nat \<Rightarrow> hstate \<Rightarrow> hstate" where
  "swapElements i largest s =
     s\<lparr>array := (array s)[i := array s ! largest, largest := array s ! i],
       counters := (counters s)\<lparr>swapCount := swapCount (counters s) + 1\<rparr>\<rparr>"

definition swapBeforeRecurse :: "nat \<Rightarrow> nat \<Rightarrow> nat \<Rightarrow> hstate \<Rightarrow> hstate" where
  "swapBeforeRecurse i largest depth s =
     recordRecurse i largest depth
       (recordAfterSwap largest depth (swapElements i largest (recordSwap i largest depth s)))"

definition enterHeapify :: "nat \<Rightarrow> hstate \<Rightarrow> hstate" where
  "enterHeapify depth s =
     (let c = counters s;
          c1 = c\<lparr>heapifyCalls := heapifyCalls c + 1\<rparr>;
          c2 = (if depth > 0 then c1\<lparr>recursiveCalls := recursiveCalls c1 + 1\<rparr> else c1)
      in s\<lparr>counters := c2\<rparr>)"

lemma pickLargestChild_range:
  "fst (pickLargestChild i (2 * i + 1) (2 * i + 2) heapSize i depth s) \<noteq> i \<Longrightarrow>
   i < fst (pickLargestChild i (2 * i + 1) (2 * i + 2) heapSize i depth s) \<and>
   fst (pickLargestChild i (2 * i + 1) (2 * i + 2) heapSize i depth s) < heapSize"
  by (auto simp: pickLargestChild_def Let_def split: if_splits)

function heapifyNode :: "nat \<Rightarrow> nat \<Rightarrow> nat \<Rightarrow> hstate \<Rightarrow> hstate" where
  "heapifyNode i heapSize depth s =
     (let s1 = enterHeapify depth s;
          left = 2 * i + 1;
          right = 2 * i + 2;
          s2 = recordHeapifyStart i left right depth s1;
          p = pickLargestChild i left right heapSize i depth s2;
          largest = fst p
      in if largest \<noteq> i
         then heapifyNode largest heapSize (depth + 1)
                (swapBeforeRecurse i largest depth (snd p))
         else recordNoSwap i depth (snd p))"
  by pat_completeness auto
termination
proof (relation "measure (\<lambda>(i, heapSize, depth, s). heapSize - i)")
  show "wf (measure (\<lambda>(i, heapSize, depth, s). heapSize - i))" by simp
next
  show "\<And>i heapSize depth s s1 left right s2 p largest.
       s1 = enterHeapify depth s \<Longrightarrow>
       left = 2 * i + 1 \<Longrightarrow>
       right = 2 * i + 2 \<Longrightarrow>
       s2 = recordHeapifyStart i left right depth s1 \<Longrightarrow>
       p = pickLargestChild i left right heapSize i depth s2 \<Longrightarrow>
       largest = fst p \<Longrightarrow>
       largest \<noteq> i \<Longrightarrow>
       ((largest, heapSize, depth + 1, swapBeforeRecurse i largest depth (snd p)),
        i, heapSize, depth, s) \<in> measure (\<lambda>(i, heapSize, depth, s). heapSize - i)"
    using pickLargestChild_range by fastforce
qed

declare heapifyNode.simps [simp del]

text \<open>
  What the methods return: \<^verbatim>\<open>{heap, steps, stats}\<close>, and \<^verbatim>\<open>extractedValue\<close> in addition
  for \<^verbatim>\<open>extractMax\<close> (\<open>None\<close> is \<^verbatim>\<open>null\<close>). Each method also leaves the solver changed,
  so the model returns the result together with the solver's new state.
\<close>

record hresult =
  heap :: "int list"
  rsteps :: "hstep list"
  rstats :: hstats

record xresult = hresult +
  extractedValue :: "int option"

text \<open>
  The loop \<^verbatim>\<open>for (let i = startIndex; i >= 0; i--)\<close> with
  \<^verbatim>\<open>startIndex = Math.floor(length / 2) - 1\<close> runs over \<open>length div 2 - 1, \<dots>, 0\<close>, and not
  at all when the array has fewer than two elements. \<open>buildStep\<close> is the body of the
  loop of \<^verbatim>\<open>buildMaxHeap\<close>.
\<close>

definition buildStep :: "nat \<Rightarrow> hstate \<Rightarrow> hstate" where
  "buildStep i s = recordLoopEnd i (heapifyNode i (length (array s)) 0 (recordLoopStart i s))"

definition buildMaxHeap :: "hstate \<Rightarrow> hresult \<times> hstate" where
  "buildMaxHeap s =
     (let s = heap_resetState s;
          s = recordInit s;
          startIndex = int (length (array s) div 2) - 1;
          s = recordInfo startIndex s;
          s = fold buildStep (rev [0..<length (array s) div 2]) s;
          s = recordComplete s
      in (\<lparr>heap = array s, rsteps = hsteps s, rstats = counters s\<rparr>, s))"

definition extractMax :: "hstate \<Rightarrow> xresult \<times> hstate" where
  "extractMax s =
     (let s = heap_resetState s;
          s = record_step ''pre-extract-build'' (HPreExtractBuild (array s)) s;
          s = fold (\<lambda>i s. heapifyNode i (length (array s)) 0 s)
                   (rev [0..<length (array s) div 2]) s;
          s = record_step ''pre-extract-complete'' (HPreExtractComplete (array s)) s
      in if length (array s) = 0 then
           (let s = record_step ''error'' HCannotExtract s
            in (\<lparr>heap = array s, rsteps = hsteps s, rstats = counters s,
                 extractedValue = None\<rparr>, s))
         else
           (let max = array s ! 0;
                s = record_step ''extract-init'' (HExtractInit max) s;
                s = s\<lparr>array := butlast ((array s)[0 := array s ! (length (array s) - 1)])\<rparr>;
                s = record_step ''extract-swap-root''
                      (HExtractSwapRoot (at (array s) 0) (length (array s))) s;
                s = (if length (array s) > 0
                     then heapifyNode 0 (length (array s)) 0
                            (record_step ''extract-heapify-start'' HExtractHeapifyStart s)
                     else s);
                s = record_step ''extract-complete'' (HExtractComplete max (array s)) s
            in (\<lparr>heap = array s, rsteps = hsteps s, rstats = counters s,
                 extractedValue = Some max\<rparr>, s)))"

text \<open>
  \<^verbatim>\<open>getSwapSequence\<close> and \<^verbatim>\<open>validateSwap\<close>. The fields \<^verbatim>\<open>from\<close> and \<^verbatim>\<open>to\<close> of an
  expected swap are \<open>swap_from\<close> and \<open>swap_to\<close> here.
\<close>

record swap =
  swap_from :: "nat option"
  swap_to :: "nat option"
  fromValue :: "int option"
  toValue :: "int option"

definition getSwapSequence :: "hstate \<Rightarrow> swap list" where
  "getSwapSequence s =
     map (\<lambda>step. \<lparr>swap_from = hfrom step, swap_to = hto step,
                   fromValue = hfromValue step, toValue = htoValue step\<rparr>)
         (filter (\<lambda>step. htype step = ''swap'') (hsteps s))"

datatype vmessage =
    NoMoreSwaps
  | CorrectSwap "int option" "int option"
  | IncorrectSwap "nat option" "nat option"

record validation =
  valid :: bool
  message :: vmessage

definition validateSwap :: "int list \<Rightarrow> nat \<Rightarrow> nat \<Rightarrow> swap list \<Rightarrow> nat \<Rightarrow> validation" where
  "validateSwap currentArray fromIndex toIndex expectedSwaps swapIndex =
     (if swapIndex \<ge> length expectedSwaps then \<lparr>valid = False, message = NoMoreSwaps\<rparr>
      else
        let expected = expectedSwaps ! swapIndex;
            isMatch = (Some fromIndex = swap_from expected \<and> Some toIndex = swap_to expected) \<or>
                      (Some fromIndex = swap_to expected \<and> Some toIndex = swap_from expected)
        in if isMatch
           then \<lparr>valid = True,
                 message = CorrectSwap (at currentArray fromIndex) (at currentArray toIndex)\<rparr>
           else \<lparr>valid = False, message = IncorrectSwap (swap_from expected) (swap_to expected)\<rparr>)"

subsection \<open>Extracting from an empty heap\<close>

lemma extract_empty:
  "fst (extractMax (newHeapSolver [])) =
     \<lparr>heap = [],
      rsteps = [\<lparr>htype = ''pre-extract-build'', harray = [], hdescription = HPreExtractBuild [],
                 hstats = \<lparr>heapifyCalls = 0, swapCount = 0, recursiveCalls = 0\<rparr>,
                 hfrom = None, hto = None, hfromValue = None, htoValue = None\<rparr>,
                \<lparr>htype = ''pre-extract-complete'', harray = [],
                 hdescription = HPreExtractComplete [],
                 hstats = \<lparr>heapifyCalls = 0, swapCount = 0, recursiveCalls = 0\<rparr>,
                 hfrom = None, hto = None, hfromValue = None, htoValue = None\<rparr>,
                \<lparr>htype = ''error'', harray = [], hdescription = HCannotExtract,
                 hstats = \<lparr>heapifyCalls = 0, swapCount = 0, recursiveCalls = 0\<rparr>,
                 hfrom = None, hto = None, hfromValue = None, htoValue = None\<rparr>],
      rstats = \<lparr>heapifyCalls = 0, swapCount = 0, recursiveCalls = 0\<rparr>,
      extractedValue = None\<rparr>"
  by (simp add: extractMax_def newHeapSolver_def heap_resetState_def record_step_def Let_def)

text \<open>
  Claim C8. \<^verbatim>\<open>extractMax()\<close> on a solver built from the empty array returns a result
  (the model has no failing branch on this path): \<^verbatim>\<open>extractedValue\<close> is \<^verbatim>\<open>null\<close>, the heap is
  empty, and the last step of the trace has type \<^verbatim>\<open>'error'\<close> and the description
  \<^verbatim>\<open>'Cannot extract from empty heap!'\<close>; the trace is the two pre-extract steps followed by
  that step.
\<close>

theorem extractMax_empty:
  "extractedValue (fst (extractMax (newHeapSolver []))) = None \<and>
   heap (fst (extractMax (newHeapSolver []))) = [] \<and>
   htype (last (rsteps (fst (extractMax (newHeapSolver []))))) = ''error'' \<and>
   hdescription (last (rsteps (fst (extractMax (newHeapSolver []))))) = HCannotExtract \<and>
   map htype (rsteps (fst (extractMax (newHeapSolver [])))) =
     [''pre-extract-build'', ''pre-extract-complete'', ''error''] \<and>
   rsteps (fst (extractMax (newHeapSolver []))) = hsteps (snd (extractMax (newHeapSolver [])))"
  unfolding extract_empty
  by (simp add: extractMax_def newHeapSolver_def heap_resetState_def record_step_def Let_def)

section \<open>HeapMonkMode\<close>

text \<open>
  \<^verbatim>\<open>src/components/heap/monkMode.js\<close>: the fields of the class that
  \<^verbatim>\<open>_handleNodeClick\<close> and \<^verbatim>\<open>_attemptSwap\<close> read and write. Rendering, highlighting and
  the status line are outside the model. The indices of an attempt come from clicks on
  the rendered nodes of \<^verbatim>\<open>userArray\<close>, so the swap of a matching attempt is modelled for
  indices inside the array.
\<close>

record monk =
  expectedSwaps :: "swap list"
  currentSwapIndex :: nat
  userArray :: "int list"
  selectedNode :: "nat option"
  isActive :: bool
  operation :: string
  userStats :: hstats

definition attemptSwap :: "nat \<Rightarrow> nat \<Rightarrow> monk \<Rightarrow> monk" where
  "attemptSwap fromIndex toIndex m =
     (let result = validateSwap (userArray m) fromIndex toIndex (expectedSwaps m)
                     (currentSwapIndex m)
      in if valid result then
           (let m = m\<lparr>userArray := (userArray m)[fromIndex := userArray m ! toIndex,
                                                  toIndex := userArray m ! fromIndex]\<rparr>;
                m = m\<lparr>currentSwapIndex := currentSwapIndex m + 1\<rparr>;
                m = m\<lparr>userStats := (userStats m)\<lparr>swapCount := swapCount (userStats m) + 1\<rparr>\<rparr>;
                m = (if operation m = ''build'' then
                       (let m = (if currentSwapIndex m = 1 \<or> toIndex < fromIndex
                                 then m\<lparr>userStats := (userStats m)
                                          \<lparr>heapifyCalls := heapifyCalls (userStats m) + 1\<rparr>\<rparr>
                                 else m)
                        in if toIndex \<noteq> fromIndex \<and> toIndex > 0
                           then m\<lparr>userStats := (userStats m)
                                    \<lparr>recursiveCalls := recursiveCalls (userStats m) + 1\<rparr>\<rparr>
                           else m)
                     else if operation m = ''extract'' \<or> operation m = ''insert'' then
                       (if currentSwapIndex m = 1
                        then m\<lparr>userStats := (userStats m)
                                 \<lparr>heapifyCalls := heapifyCalls (userStats m) + 1\<rparr>\<rparr>
                        else m\<lparr>userStats := (userStats m)
                                 \<lparr>recursiveCalls := recursiveCalls (userStats m) + 1\<rparr>\<rparr>)
                     else m)
            in if currentSwapIndex m \<ge> length (expectedSwaps m)
               then m\<lparr>isActive := False\<rparr> else m)
         else m)"

definition handleNodeClick :: "nat \<Rightarrow> monk \<Rightarrow> monk" where
  "handleNodeClick index m =
     (case selectedNode m of
        None \<Rightarrow> m\<lparr>selectedNode := Some index\<rparr>
      | Some selected \<Rightarrow>
          if selected = index then m\<lparr>selectedNode := None\<rparr>
          else (attemptSwap selected index m)\<lparr>selectedNode := None\<rparr>)"

text \<open>
  An attempt \<open>(a, b)\<close> matches an expected swap when the pair equals \<open>(from, to)\<close> in
  either order: the test \<^verbatim>\<open>isMatch\<close> of \<^verbatim>\<open>validateSwap\<close>.
\<close>

definition swap_matches :: "swap \<Rightarrow> nat \<Rightarrow> nat \<Rightarrow> bool" where
  "swap_matches e a b \<longleftrightarrow>
     (swap_from e = Some a \<and> swap_to e = Some b) \<or> (swap_from e = Some b \<and> swap_to e = Some a)"

lemma validateSwap_valid:
  "valid (validateSwap arr a b es k) \<longleftrightarrow> k < length es \<and> swap_matches (es ! k) a b"
  by (auto simp: validateSwap_def swap_matches_def Let_def)

lemma attemptSwap_invalid:
  "\<not> valid (validateSwap (userArray m) a b (expectedSwaps m) (currentSwapIndex m)) \<Longrightarrow>
   attemptSwap a b m = m"
  by (simp add: attemptSwap_def)

lemma attemptSwap_valid:
  "valid (validateSwap (userArray m) a b (expectedSwaps m) (currentSwapIndex m)) \<Longrightarrow>
   userArray (attemptSwap a b m) = (userArray m)[a := userArray m ! b, b := userArray m ! a] \<and>
   currentSwapIndex (attemptSwap a b m) = currentSwapIndex m + 1 \<and>
   expectedSwaps (attemptSwap a b m) = expectedSwaps m"
  by (simp add: attemptSwap_def Let_def)

text \<open>
  Claim C9. In heap monk mode an attempt that does not match the expected next swap
  leaves \<^verbatim>\<open>currentSwapIndex\<close> and the user's array as they were (the whole state is
  unchanged); a matching attempt swaps the two elements and increments
  \<^verbatim>\<open>currentSwapIndex\<close>; matching does not depend on the order of the two clicks; and
  \<^verbatim>\<open>validateSwap\<close> reports invalid whenever \<^verbatim>\<open>swapIndex\<close> is at or past the end of
  \<^verbatim>\<open>expectedSwaps\<close>.
\<close>

theorem monk_sequential_gating:
  assumes "a < length (userArray m)" and "b < length (userArray m)"
  shows "(\<not> (currentSwapIndex m < length (expectedSwaps m) \<and>
              swap_matches (expectedSwaps m ! currentSwapIndex m) a b) \<longrightarrow>
            currentSwapIndex (attemptSwap a b m) = currentSwapIndex m \<and>
            userArray (attemptSwap a b m) = userArray m) \<and>
         (currentSwapIndex m < length (expectedSwaps m) \<and>
            swap_matches (expectedSwaps m ! currentSwapIndex m) a b \<longrightarrow>
            currentSwapIndex (attemptSwap a b m) = currentSwapIndex m + 1 \<and>
            userArray (attemptSwap a b m) =
              (userArray m)[a := userArray m ! b, b := userArray m ! a]) \<and>
         (swap_matches e a b \<longleftrightarrow> swap_matches e b a) \<and>
         (swapIndex \<ge> length expectedSwaps' \<longrightarrow>
            \<not> valid (validateSwap currentArray a b expectedSwaps' swapIndex))"
proof (intro conjI impI)
  assume n: "\<not> (currentSwapIndex m < length (expectedSwaps m) \<and>
              swap_matches (expectedSwaps m ! currentSwapIndex m) a b)"
  then have "attemptSwap a b m = m"
    by (intro attemptSwap_invalid) (simp add: validateSwap_valid)
  then show "currentSwapIndex (attemptSwap a b m) = currentSwapIndex m"
    "userArray (attemptSwap a b m) = userArray m" by simp_all
next
  assume y: "currentSwapIndex m < length (expectedSwaps m) \<and>
            swap_matches (expectedSwaps m ! currentSwapIndex m) a b"
  then have v: "valid (validateSwap (userArray m) a b (expectedSwaps m) (currentSwapIndex m))"
    by (simp add: validateSwap_valid)
  from attemptSwap_valid[OF v]
  show "currentSwapIndex (attemptSwap a b m) = currentSwapIndex m + 1"
    "userArray (attemptSwap a b m) = (userArray m)[a := userArray m ! b, b := userArray m ! a]"
    by simp_all
next
  show "swap_matches e a b \<longleftrightarrow> swap_matches e b a"
    by (auto simp: swap_matches_def)
next
  assume "swapIndex \<ge> length expectedSwaps'"
  then show "\<not> valid (validateSwap currentArray a b expectedSwaps' swapIndex)"
    by (simp add: validateSwap_valid)
qed

definition monk_example :: monk where
  "monk_example =
     \<lparr>expectedSwaps = [\<lparr>swap_from = Some 0, swap_to = Some 2, fromValue = Some 3, toValue = Some 9\<rparr>],
      currentSwapIndex = 0, userArray = [3, 5, 9], selectedNode = None, isActive = True,
      operation = ''build'',
      userStats = \<lparr>heapifyCalls = 0, swapCount = 0, recursiveCalls = 0\<rparr>\<rparr>"

theorem monk_sequential_gating_witness:
  "(2::nat) < length (userArray monk_example) \<and> (0::nat) < length (userArray monk_example) \<and>
   currentSwapIndex (attemptSwap 2 0 monk_example) = 1 \<and>
   userArray (attemptSwap 2 0 monk_example) = [9, 5, 3] \<and>
   currentSwapIndex (attemptSwap 2 1 monk_example) = 0 \<and>
   userArray (attemptSwap 2 1 monk_example) = [3, 5, 9]"
proof -
  have h: "(2::nat) < length (userArray monk_example)" "(0::nat) < length (userArray monk_example)"
    "(1::nat) < length (userArray monk_example)"
    by (simp_all add: monk_example_def)
  from monk_sequential_gating[OF h(1) h(2)] monk_sequential_gating[OF h(1) h(3)] h
  show ?thesis by (simp add: monk_example_def swap_matches_def)
qed

subsection \<open>Sift-down restores the heap property\<close>

text \<open>
  \<open>hp a j\<close>: node \<open>j\<close> of the array \<open>a\<close> is at least each of its children that lie
  inside the array. \<open>pick\<close> is the index \<^verbatim>\<open>_pickLargestChild\<close> returns, as a function of the
  array alone.
\<close>

definition hp :: "int list \<Rightarrow> nat \<Rightarrow> bool" where
  "hp a j \<longleftrightarrow> (2 * j + 1 < length a \<longrightarrow> a ! j \<ge> a ! (2 * j + 1)) \<and>
              (2 * j + 2 < length a \<longrightarrow> a ! j \<ge> a ! (2 * j + 2))"

definition pick :: "int list \<Rightarrow> nat \<Rightarrow> nat \<Rightarrow> nat" where
  "pick a i n =
     (let c = (if 2 * i + 1 < n \<and> gt_at a (2 * i + 1) i then 2 * i + 1 else i)
      in if 2 * i + 2 < n \<and> gt_at a (2 * i + 2) c then 2 * i + 2 else c)"

lemma array_record_step [simp]: "array (record_step ty d s) = array s"
  by (simp add: record_step_def)

lemma array_records [simp]:
  "array (recordInit s) = array s"
  "array (recordInfo k s) = array s"
  "array (recordLoopStart i s) = array s"
  "array (recordLoopEnd i s) = array s"
  "array (recordComplete s) = array s"
  "array (recordHeapifyStart i l r d s) = array s"
  "array (recordCompare lab i c d s) = array s"
  "array (recordSwap i c d s) = array s"
  "array (recordAfterSwap c d s) = array s"
  "array (recordRecurse i c d s) = array s"
  "array (recordNoSwap i d s) = array s"
  "array (enterHeapify d s) = array s"
  by (simp_all add: recordInit_def recordInfo_def recordLoopStart_def recordLoopEnd_def
      recordComplete_def recordHeapifyStart_def recordCompare_def recordSwap_def
      recordAfterSwap_def recordRecurse_def recordNoSwap_def enterHeapify_def Let_def)

lemma pickLargestChild_fst:
  "fst (pickLargestChild i l r n i d s) =
     (let c = (if l < n \<and> gt_at (array s) l i then l else i)
      in if r < n \<and> gt_at (array s) r c then r else c)"
  by (simp add: pickLargestChild_def Let_def)

lemma pickLargestChild_snd: "array (snd (pickLargestChild i l r n k d s)) = array s"
  by (simp add: pickLargestChild_def Let_def)

lemma array_swapBeforeRecurse [simp]:
  "array (swapBeforeRecurse i c d s) = (array s)[i := array s ! c, c := array s ! i]"
  by (simp add: swapBeforeRecurse_def swapElements_def)

lemma heapifyNode_array:
  "array (heapifyNode i n d s) =
     (if pick (array s) i n \<noteq> i
      then array (heapifyNode (pick (array s) i n) n (d + 1)
             (swapBeforeRecurse i (pick (array s) i n) d
                (snd (pickLargestChild i (2 * i + 1) (2 * i + 2) n i d
                   (recordHeapifyStart i (2 * i + 1) (2 * i + 2) d (enterHeapify d s))))))
      else array s)"
proof -
  let ?p = "pickLargestChild i (2 * i + 1) (2 * i + 2) n i d
              (recordHeapifyStart i (2 * i + 1) (2 * i + 2) d (enterHeapify d s))"
  have f: "fst ?p = pick (array s) i n"
    by (simp only: pickLargestChild_fst pick_def array_records)
  have sn: "array (snd ?p) = array s"
    by (simp only: pickLargestChild_snd array_records)
  have "heapifyNode i n d s =
      (if fst ?p \<noteq> i then heapifyNode (fst ?p) n (d + 1) (swapBeforeRecurse i (fst ?p) d (snd ?p))
       else recordNoSwap i d (snd ?p))"
    by (subst heapifyNode.simps) (simp only: Let_def)
  then show ?thesis
    by (simp only: f sn array_records split: if_split) simp
qed

lemma pick_cases:
  assumes "n = length a" "i < n"
  shows "pick a i n = i \<and> hp a i \<or>
         pick a i n \<in> {2 * i + 1, 2 * i + 2} \<and> pick a i n < n \<and>
           a ! pick a i n > a ! i \<and>
           (2 * i + 1 < n \<longrightarrow> a ! (2 * i + 1) \<le> a ! pick a i n) \<and>
           (2 * i + 2 < n \<longrightarrow> a ! (2 * i + 2) \<le> a ! pick a i n)"
  using assms by (auto simp: pick_def gt_at_def hp_def Let_def)

lemma hp_swap_root:
  assumes n: "n = length a" and i: "i < n" and c: "c = 2 * i + 1 \<or> c = 2 * i + 2" "c < n"
    and big: "a ! c > a ! i" "2 * i + 1 < n \<longrightarrow> a ! (2 * i + 1) \<le> a ! c"
      "2 * i + 2 < n \<longrightarrow> a ! (2 * i + 2) \<le> a ! c"
  shows "hp (a[i := a ! c, c := a ! i]) i"
  using assms unfolding hp_def
  by (auto simp: nth_list_update)

lemma hp_swap_other:
  assumes n: "n = length a" and i: "i < n" and c: "c = 2 * i + 1 \<or> c = 2 * i + 2" "c < n"
    and j: "j \<noteq> i" "j \<noteq> c" and hj: "hp a j"
    and par: "2 * j + 1 = i \<or> 2 * j + 2 = i \<longrightarrow> a ! c \<le> a ! j"
  shows "hp (a[i := a ! c, c := a ! i]) j"
proof -
  have nc: "2 * j + 1 \<noteq> c" "2 * j + 2 \<noteq> c" using c j by presburger+
  show ?thesis
    using n i c j hj par nc unfolding hp_def
    by (auto simp: nth_list_update)
qed

lemma heapify_correct:
  "n = length (array s) \<Longrightarrow> i < n \<Longrightarrow> lo \<le> i \<Longrightarrow>
   (\<forall>j. lo \<le> j \<and> j \<noteq> i \<longrightarrow> hp (array s) j) \<Longrightarrow>
   (\<forall>p. lo \<le> p \<and> (2 * p + 1 = i \<or> 2 * p + 2 = i) \<longrightarrow>
        (2 * i + 1 < n \<longrightarrow> array s ! (2 * i + 1) \<le> array s ! p) \<and>
        (2 * i + 2 < n \<longrightarrow> array s ! (2 * i + 2) \<le> array s ! p)) \<Longrightarrow>
   length (array (heapifyNode i n d s)) = n \<and>
   mset (array (heapifyNode i n d s)) = mset (array s) \<and>
   (\<forall>j\<ge>lo. hp (array (heapifyNode i n d s)) j)"
proof (induction i n d s rule: heapifyNode.induct)
  case (1 i n d s)
  let ?a = "array s"
  let ?c = "pick ?a i n"
  let ?p = "pickLargestChild i (2 * i + 1) (2 * i + 2) n i d
              (recordHeapifyStart i (2 * i + 1) (2 * i + 2) d (enterHeapify d s))"
  let ?s' = "swapBeforeRecurse i ?c d (snd ?p)"
  note n = "1.prems"(1) and i = "1.prems"(2) and lo = "1.prems"(3)
    and others = "1.prems"(4)[rule_format] and gp = "1.prems"(5)[rule_format]
  have f: "fst ?p = ?c"
    by (simp only: pickLargestChild_fst pick_def array_records)
  have sn: "array (snd ?p) = ?a"
    by (simp only: pickLargestChild_snd array_records)
  from pick_cases[OF n i] show ?case
  proof (elim disjE conjE)
    assume eq: "?c = i" and h: "hp ?a i"
    have "array (heapifyNode i n d s) = ?a"
      by (subst heapifyNode_array) (simp add: eq)
    moreover have "\<forall>j\<ge>lo. hp ?a j" using others h by (metis)
    ultimately show ?thesis using n by simp
  next
    assume "?c \<in> {2 * i + 1, 2 * i + 2}" and cn: "?c < n" and gt: "?a ! i < ?a ! ?c"
      and l: "2 * i + 1 < n \<longrightarrow> ?a ! (2 * i + 1) \<le> ?a ! ?c"
      and r: "2 * i + 2 < n \<longrightarrow> ?a ! (2 * i + 2) \<le> ?a ! ?c"
    let ?a1 = "?a[i := ?a ! ?c, ?c := ?a ! i]"
    have c: "?c = 2 * i + 1 \<or> ?c = 2 * i + 2" using \<open>?c \<in> {2 * i + 1, 2 * i + 2}\<close> by blast
    have ne: "?c \<noteq> i" using c by auto
    have a1: "array ?s' = ?a1" by (simp only: array_swapBeforeRecurse sn)
    have len: "n = length (array ?s')" using n a1 by simp
    have loc: "lo \<le> ?c" using c lo by auto
    have oth: "\<forall>j. lo \<le> j \<and> j \<noteq> ?c \<longrightarrow> hp (array ?s') j"
    proof (intro allI impI)
      fix j assume j: "lo \<le> j \<and> j \<noteq> ?c"
      show "hp (array ?s') j"
      proof (cases "j = i")
        case True
        then show ?thesis unfolding a1 using hp_swap_root[OF n i c cn gt l r] by simp
      next
        case False
        have hj: "hp ?a j" using others[of j] j False by simp
        have par: "2 * j + 1 = i \<or> 2 * j + 2 = i \<longrightarrow> ?a ! ?c \<le> ?a ! j"
          using gp[of j] j c cn by auto
        show ?thesis unfolding a1
          using hp_swap_other[OF n i c cn False _ hj par] j by simp
      qed
    qed
    have hc: "hp ?a ?c" using others[of ?c] loc ne by simp
    have gp': "\<forall>p. lo \<le> p \<and> (2 * p + 1 = ?c \<or> 2 * p + 2 = ?c) \<longrightarrow>
        (2 * ?c + 1 < n \<longrightarrow> array ?s' ! (2 * ?c + 1) \<le> array ?s' ! p) \<and>
        (2 * ?c + 2 < n \<longrightarrow> array ?s' ! (2 * ?c + 2) \<le> array ?s' ! p)"
    proof (intro allI impI)
      fix p assume p: "lo \<le> p \<and> (2 * p + 1 = ?c \<or> 2 * p + 2 = ?c)"
      have pi: "p = i" using p c by presburger
      have "?a1 ! i = ?a ! ?c" using i n ne by (simp add: nth_list_update)
      moreover have "2 * ?c + 1 < n \<longrightarrow> ?a1 ! (2 * ?c + 1) = ?a ! (2 * ?c + 1)"
        using c by (auto simp: nth_list_update)
      moreover have "2 * ?c + 2 < n \<longrightarrow> ?a1 ! (2 * ?c + 2) = ?a ! (2 * ?c + 2)"
        using c by (auto simp: nth_list_update)
      ultimately show "(2 * ?c + 1 < n \<longrightarrow> array ?s' ! (2 * ?c + 1) \<le> array ?s' ! p) \<and>
        (2 * ?c + 2 < n \<longrightarrow> array ?s' ! (2 * ?c + 2) \<le> array ?s' ! p)"
        unfolding a1 pi using hc n unfolding hp_def by auto
    qed
    have ne': "fst ?p \<noteq> i" using f ne by simp
    have ih: "length (array (heapifyNode ?c n (d + 1) ?s')) = n \<and>
        mset (array (heapifyNode ?c n (d + 1) ?s')) = mset (array ?s') \<and>
        (\<forall>j\<ge>lo. hp (array (heapifyNode ?c n (d + 1) ?s')) j)"
      using "1.IH"[OF refl refl refl refl refl refl ne'] len cn loc oth gp'
      unfolding f by blast
    have unf: "array (heapifyNode i n d s) = array (heapifyNode ?c n (d + 1) ?s')"
      by (subst heapifyNode_array) (simp add: ne)
    have "mset ?a1 = mset ?a" using i cn n by (simp add: mset_swap)
    with ih show ?thesis unfolding unf a1 by simp
  qed
qed

lemma rev_upt_Suc_fold: "fold f (rev [0..<Suc k]) s = fold f (rev [0..<k]) (f k s)"
  by simp


lemma build_loop:
  "k \<le> length (array s) div 2 \<Longrightarrow> (\<forall>j\<ge>k. hp (array s) j) \<Longrightarrow>
   length (array (fold buildStep (rev [0..<k]) s)) = length (array s) \<and>
   mset (array (fold buildStep (rev [0..<k]) s)) = mset (array s) \<and>
   (\<forall>j. hp (array (fold buildStep (rev [0..<k]) s)) j)"
proof (induction k arbitrary: s)
  case 0
  then show ?case by simp
next
  case (Suc k)
  let ?n = "length (array s)"
  let ?s1 = "recordLoopStart k s"
  have kn: "k < ?n" using Suc.prems(1) by auto
  have a: "\<forall>j. k \<le> j \<and> j \<noteq> k \<longrightarrow> hp (array ?s1) j"
    using Suc.prems(2) by (simp add: Suc_le_eq)
  have b: "\<forall>p. k \<le> p \<and> (2 * p + 1 = k \<or> 2 * p + 2 = k) \<longrightarrow>
        (2 * k + 1 < ?n \<longrightarrow> array ?s1 ! (2 * k + 1) \<le> array ?s1 ! p) \<and>
        (2 * k + 2 < ?n \<longrightarrow> array ?s1 ! (2 * k + 2) \<le> array ?s1 ! p)"
    by auto
  have n1: "?n = length (array ?s1)" by simp
  from heapify_correct[OF n1 kn le_refl a b, of 0]
  have h: "length (array (buildStep k s)) = ?n" "mset (array (buildStep k s)) = mset (array s)"
    "\<forall>j\<ge>k. hp (array (buildStep k s)) j"
    by (simp_all add: buildStep_def)
  have "k \<le> length (array (buildStep k s)) div 2" using Suc.prems(1) h(1) by simp
  from Suc.IH[OF this h(3)] h(1,2)
  show ?case by (simp del: upt_Suc add: rev_upt_Suc_fold)
qed

lemma hp_leaves: "length a div 2 \<le> j \<Longrightarrow> hp a j"
  by (auto simp: hp_def)

lemma buildMaxHeap_heap:
  "heap (fst (buildMaxHeap s)) =
     array (fold buildStep (rev [0..<length (originalArray s) div 2])
        (recordInfo (int (length (originalArray s) div 2) - 1) (recordInit (heap_resetState s))))"
  by (simp add: buildMaxHeap_def Let_def heap_resetState_def)

text \<open>
  The effect of \<^verbatim>\<open>_heapifyNode\<close> on the array alone, without the trace and the counters.
\<close>

lemma pick_range: "pick a i n \<noteq> i \<Longrightarrow> i < pick a i n \<and> pick a i n < n"
  by (auto simp: pick_def Let_def split: if_splits)

function sift :: "int list \<Rightarrow> nat \<Rightarrow> nat \<Rightarrow> int list" where
  "sift a i n =
     (if pick a i n \<noteq> i
      then sift (a[i := a ! pick a i n, pick a i n := a ! i]) (pick a i n) n
      else a)"
  by pat_completeness auto
termination
proof (relation "measure (\<lambda>(a, i, n). n - i)")
  show "wf (measure (\<lambda>(a, i, n). n - i))" by simp
next
  fix a :: "int list" and i n :: nat
  assume "pick a i n \<noteq> i"
  from pick_range[OF this]
  show "((a[i := a ! pick a i n, pick a i n := a ! i], pick a i n, n), a, i, n)
          \<in> measure (\<lambda>(a, i, n). n - i)"
    by auto
qed

declare sift.simps [simp del]

lemma heapifyNode_sift: "array (heapifyNode i n d s) = sift (array s) i n"
proof (induction i n d s rule: heapifyNode.induct)
  case (1 i n d s)
  let ?p = "pickLargestChild i (2 * i + 1) (2 * i + 2) n i d
              (recordHeapifyStart i (2 * i + 1) (2 * i + 2) d (enterHeapify d s))"
  have f: "fst ?p = pick (array s) i n"
    by (simp only: pickLargestChild_fst pick_def array_records)
  have sn: "array (snd ?p) = array s"
    by (simp only: pickLargestChild_snd array_records)
  show ?case
  proof (cases "pick (array s) i n = i")
    case True
    then show ?thesis
      by (subst heapifyNode_array, subst sift.simps) simp
  next
    case False
    then have ne: "fst ?p \<noteq> i" using f by simp
    have "array (heapifyNode i n d s) =
        array (heapifyNode (pick (array s) i n) n (d + 1)
                 (swapBeforeRecurse i (pick (array s) i n) d (snd ?p)))"
      using False by (subst heapifyNode_array) simp
    also have "\<dots> = sift (array (swapBeforeRecurse i (pick (array s) i n) d (snd ?p)))
                       (pick (array s) i n) n"
      using "1.IH"[OF refl refl refl refl refl refl ne] unfolding f .
    also have "\<dots> = sift (array s) i n"
      using False by (subst (2) sift.simps) (simp only: array_swapBeforeRecurse sn if_True not_False_eq_True)
    finally show ?thesis .
  qed
qed

lemma fold_buildStep_array:
  "array (fold buildStep is s) = fold (\<lambda>i a. sift a i (length a)) is (array s)"
  by (induction "is" arbitrary: s) (simp_all add: buildStep_def heapifyNode_sift)

subsection \<open>Build-Max-Heap\<close>

lemma sift_example:
  "fold (\<lambda>i a. sift a i (length a)) (rev [0..<length [4, 1, 3, 2, 16, 9, 10, 14, 8, 7 :: int] div 2])
     [4, 1, 3, 2, 16, 9, 10, 14, 8, 7] = [16, 14, 10, 8, 7, 9, 3, 2, 4, 1]"
  by (simp add: sift.simps pick_def gt_at_def Let_def upt_rec nth_Cons')

lemma heap_example:
  "heap (fst (buildMaxHeap (newHeapSolver [4, 1, 3, 2, 16, 9, 10, 14, 8, 7]))) =
     [16, 14, 10, 8, 7, 9, 3, 2, 4, 1]"
  unfolding buildMaxHeap_heap fold_buildStep_array
  by (simp only: newHeapSolver_def heap_resetState_def array_records hstate.simps sift_example)

text \<open>
  Claim C4. For every input array, the heap returned by \<^verbatim>\<open>buildMaxHeap()\<close> satisfies the
  max-heap property (every index \<open>i\<close> holds a value at least that of each of its
  children \<open>2i+1\<close>, \<open>2i+2\<close> that lie inside the array) and is a permutation of the
  input. For the input \<open>[4,1,3,2,16,9,10,14,8,7]\<close> the returned array has 16 at index 0.
\<close>

theorem buildMaxHeap_correct:
  assumes "h = heap (fst (buildMaxHeap (newHeapSolver xs)))"
  shows "(2 * i + 1 < length h \<longrightarrow> h ! i \<ge> h ! (2 * i + 1)) \<and>
         (2 * i + 2 < length h \<longrightarrow> h ! i \<ge> h ! (2 * i + 2)) \<and>
         mset h = mset xs \<and>
         heap (fst (buildMaxHeap (newHeapSolver [4, 1, 3, 2, 16, 9, 10, 14, 8, 7]))) ! 0 = 16"
proof -
  let ?s = "recordInfo (int (length xs div 2) - 1) (recordInit (heap_resetState (newHeapSolver xs)))"
  have a: "array ?s = xs" by (simp add: heap_resetState_def newHeapSolver_def)
  have "length xs div 2 \<le> length (array ?s) div 2" "\<forall>j\<ge>length xs div 2. hp (array ?s) j"
    unfolding a by (simp_all add: hp_leaves)
  from build_loop[OF this]
  have "mset h = mset xs" "hp h i"
    unfolding assms buildMaxHeap_heap a by (simp_all add: newHeapSolver_def)
  then show ?thesis unfolding hp_def heap_example by simp
qed

theorem buildMaxHeap_correct_witness:
  "(2 * 0 + 1 < length [16, 14, 10, 8, 7, 9, 3, 2, 4, 1 :: int] \<and>
    2 * 0 + 2 < length [16, 14, 10, 8, 7, 9, 3, 2, 4, 1 :: int]) \<and>
   heap (fst (buildMaxHeap (newHeapSolver [4, 1, 3, 2, 16, 9, 10, 14, 8, 7]))) ! 0 \<ge>
     heap (fst (buildMaxHeap (newHeapSolver [4, 1, 3, 2, 16, 9, 10, 14, 8, 7]))) ! 1 \<and>
   heap (fst (buildMaxHeap (newHeapSolver [4, 1, 3, 2, 16, 9, 10, 14, 8, 7]))) ! 0 \<ge>
     heap (fst (buildMaxHeap (newHeapSolver [4, 1, 3, 2, 16, 9, 10, 14, 8, 7]))) ! 2 \<and>
   mset (heap (fst (buildMaxHeap (newHeapSolver [4, 1, 3, 2, 16, 9, 10, 14, 8, 7])))) =
     mset [4, 1, 3, 2, 16, 9, 10, 14, 8, 7]"
  using buildMaxHeap_correct [OF refl, of 0 "[4, 1, 3, 2, 16, 9, 10, 14, 8, 7]"]
  by (simp add: heap_example)

section \<open>CountingSortSolver\<close>

text \<open>
  \<^verbatim>\<open>src/unnamed/part_004\<close>. The input is an array of non-negative integers (the
  constraint stated in the file's header), so its elements are natural numbers here.
  The count array holds integers, as \<^verbatim>\<open>countArray[value]--\<close> is a plain decrement; the
  output array starts as \<^verbatim>\<open>null\<close>s (\<open>None\<close>). A step is a tagged variant, one constructor
  for each \<^verbatim>\<open>type\<close>, holding the fields of that type and the common snapshot of the three
  arrays and the counters.
\<close>

record cstats =
  comparisons :: nat
  arrayAccesses :: nat
  countUpdates :: nat
  placements :: nat

record csnap =
  inputArray_snap :: "nat list"
  countArray_snap :: "int list"
  outputArray_snap :: "nat option list"
  stats_snap :: cstats

datatype cstep =
    PhaseStart string csnap
  | FindMax nat nat nat nat bool csnap
  | FindMaxComplete nat csnap
  | Count nat nat int int csnap
  | CountComplete csnap
  | Cumulative nat int int int csnap
  | CumulativeComplete csnap
  | Output nat nat int int int csnap
  | OutputComplete csnap
  | Complete csnap

text \<open>
  The fields are, in order: \<^verbatim>\<open>find-max\<close>: \<^verbatim>\<open>currentIndex\<close>, \<^verbatim>\<open>currentValue\<close>,
  \<^verbatim>\<open>currentMax\<close>, \<^verbatim>\<open>maxIndex\<close>, \<^verbatim>\<open>isNewMax\<close>; \<^verbatim>\<open>count\<close>: \<^verbatim>\<open>inputIndex\<close>, \<^verbatim>\<open>value\<close>,
  \<^verbatim>\<open>oldCount\<close>, \<^verbatim>\<open>newCount\<close>; \<^verbatim>\<open>cumulative\<close>: \<^verbatim>\<open>countIndex\<close>, \<^verbatim>\<open>oldValue\<close>,
  \<^verbatim>\<open>previousValue\<close>, \<^verbatim>\<open>newValue\<close>; \<^verbatim>\<open>output\<close>: \<^verbatim>\<open>inputIndex\<close>, \<^verbatim>\<open>value\<close>,
  \<^verbatim>\<open>outputPosition\<close>, \<^verbatim>\<open>countBefore\<close>, \<^verbatim>\<open>countAfter\<close>.
\<close>

record cstate =
  cs_originalArray :: "nat list"
  cs_array :: "nat list"
  csteps :: "cstep list"
  countArray :: "int list"
  outputArray :: "nat option list"
  maxValue :: nat
  stats :: cstats

text \<open>
  \<^verbatim>\<open>outputArray[position] = value\<close> for an integer position: inside the array the slot
  is overwritten; a negative position sets a property and leaves the elements alone; a
  position past the end extends the array, the gap being holes.
\<close>

definition js_put :: "'a option list \<Rightarrow> int \<Rightarrow> 'a \<Rightarrow> 'a option list" where
  "js_put xs k v =
     (if k < 0 then xs
      else if nat k < length xs then xs[nat k := Some v]
      else xs @ replicate (nat k - length xs) None @ [Some v])"

definition zero_stats :: cstats where
  "zero_stats = \<lparr>comparisons = 0, arrayAccesses = 0, countUpdates = 0, placements = 0\<rparr>"

definition newCountingSortSolver :: "nat list \<Rightarrow> cstate" where
  "newCountingSortSolver xs =
     \<lparr>cs_originalArray = xs, cs_array = xs, csteps = [], countArray = [], outputArray = [],
      maxValue = 0, stats = zero_stats\<rparr>"

definition cs_resetState :: "cstate \<Rightarrow> cstate" where
  "cs_resetState s =
     s\<lparr>csteps := [], countArray := [], outputArray := [], stats := zero_stats,
       cs_array := cs_originalArray s\<rparr>"

definition snapshot :: "cstate \<Rightarrow> csnap" where
  "snapshot s =
     \<lparr>inputArray_snap = cs_array s, countArray_snap = countArray s,
      outputArray_snap = outputArray s, stats_snap = stats s\<rparr>"

definition snapshot_empty :: "cstate \<Rightarrow> csnap" where
  "snapshot_empty s =
     \<lparr>inputArray_snap = cs_array s, countArray_snap = [], outputArray_snap = [],
      stats_snap = stats s\<rparr>"

definition cpush :: "cstep \<Rightarrow> cstate \<Rightarrow> cstate" where
  "cpush st s = s\<lparr>csteps := csteps s @ [st]\<rparr>"

text \<open>
  \<^verbatim>\<open>_findMaximum\<close>. \<^verbatim>\<open>this.array[0] || 0\<close> is the first element, or 0 for the empty array.
  The local \<^verbatim>\<open>maxIndex\<close> is threaded through the loop beside the state.
\<close>

definition findMaxStep :: "nat \<Rightarrow> nat \<times> cstate \<Rightarrow> nat \<times> cstate" where
  "findMaxStep i ms =
     (let maxIndex = fst ms;
          s = snd ms;
          s = s\<lparr>stats := (stats s)\<lparr>arrayAccesses := arrayAccesses (stats s) + 1\<rparr>\<rparr>;
          s = s\<lparr>stats := (stats s)\<lparr>comparisons := comparisons (stats s) + 1\<rparr>\<rparr>;
          isNewMax = cs_array s ! i > maxValue s;
          s = cpush (FindMax i (cs_array s ! i) (maxValue s) maxIndex isNewMax
                       (snapshot_empty s)) s
      in if isNewMax then (i, s\<lparr>maxValue := cs_array s ! i\<rparr>) else (maxIndex, s))"

definition findMaximum :: "cstate \<Rightarrow> cstate" where
  "findMaximum s =
     (let s = cpush (PhaseStart ''find-max'' (snapshot_empty s)) s;
          s = s\<lparr>maxValue := (case cs_array s of [] \<Rightarrow> 0 | x # _ \<Rightarrow> x)\<rparr>;
          s = snd (fold findMaxStep [0..<length (cs_array s)] (0, s))
      in cpush (FindMaxComplete (maxValue s) (snapshot_empty s)) s)"

definition initializeCountArray :: "cstate \<Rightarrow> cstate" where
  "initializeCountArray s =
     (let s = s\<lparr>countArray := replicate (maxValue s + 1) 0\<rparr>;
          s = s\<lparr>outputArray := replicate (length (cs_array s)) None\<rparr>
      in cpush (PhaseStart ''count'' (snapshot s)) s)"

text \<open>
  \<^verbatim>\<open>_countOccurrences\<close>. Every value of the array is at most \<^verbatim>\<open>maxValue\<close> (lemma
  \<open>findMaximum_bound\<close> below), so the reads and writes \<^verbatim>\<open>countArray[value]\<close> of this and
  of the output phase are inside the count array.
\<close>

definition countStep :: "nat \<Rightarrow> cstate \<Rightarrow> cstate" where
  "countStep i s =
     (let v = cs_array s ! i;
          oldCount = countArray s ! v;
          s = s\<lparr>countArray := (countArray s)[v := countArray s ! v + 1]\<rparr>;
          s = s\<lparr>stats := (stats s)\<lparr>arrayAccesses := arrayAccesses (stats s) + 1\<rparr>\<rparr>;
          s = s\<lparr>stats := (stats s)\<lparr>countUpdates := countUpdates (stats s) + 1\<rparr>\<rparr>
      in cpush (Count i v oldCount (countArray s ! v) (snapshot s)) s)"

definition countOccurrences :: "cstate \<Rightarrow> cstate" where
  "countOccurrences s =
     (let s = fold countStep [0..<length (cs_array s)] s
      in cpush (CountComplete (snapshot s)) s)"

definition cumulativeStep :: "nat \<Rightarrow> cstate \<Rightarrow> cstate" where
  "cumulativeStep i s =
     (let oldValue = countArray s ! i;
          previousValue = countArray s ! (i - 1);
          s = s\<lparr>countArray := (countArray s)[i := countArray s ! i + countArray s ! (i - 1)]\<rparr>;
          s = s\<lparr>stats := (stats s)\<lparr>countUpdates := countUpdates (stats s) + 1\<rparr>\<rparr>
      in cpush (Cumulative i oldValue previousValue (countArray s ! i) (snapshot s)) s)"

definition calculateCumulativeCounts :: "cstate \<Rightarrow> cstate" where
  "calculateCumulativeCounts s =
     (let s = cpush (PhaseStart ''cumulative'' (snapshot s)) s;
          s = fold cumulativeStep [1..<maxValue s + 1] s
      in cpush (CumulativeComplete (snapshot s)) s)"

text \<open>
  \<^verbatim>\<open>_buildOutputArray\<close>: the loop \<^verbatim>\<open>for (let i = length - 1; i >= 0; i--)\<close> runs over the
  indices of the input from the last to the first.
\<close>

definition outputStep :: "nat \<Rightarrow> cstate \<Rightarrow> cstate" where
  "outputStep i s =
     (let v = cs_array s ! i;
          countBefore = countArray s ! v;
          position = countBefore - 1;
          s = s\<lparr>outputArray := js_put (outputArray s) position v\<rparr>;
          s = s\<lparr>countArray := (countArray s)[v := countArray s ! v - 1]\<rparr>;
          countAfter = countArray s ! v;
          s = s\<lparr>stats := (stats s)\<lparr>arrayAccesses := arrayAccesses (stats s) + 2\<rparr>\<rparr>;
          s = s\<lparr>stats := (stats s)\<lparr>placements := placements (stats s) + 1\<rparr>\<rparr>
      in cpush (Output i v position countBefore countAfter (snapshot s)) s)"

definition buildOutputArray :: "cstate \<Rightarrow> cstate" where
  "buildOutputArray s =
     (let s = cpush (PhaseStart ''output'' (snapshot s)) s;
          s = fold outputStep (rev [0..<length (cs_array s)]) s
      in cpush (OutputComplete (snapshot s)) s)"

definition copyToOriginal :: "cstate \<Rightarrow> cstate" where
  "copyToOriginal s = cpush (Complete (snapshot s)) s"

record cresult =
  sortedArray :: "nat option list"
  result_steps :: "cstep list"
  result_stats :: cstats

definition cs_solve :: "cstate \<Rightarrow> cresult \<times> cstate" where
  "cs_solve s =
     (let s = cs_resetState s;
          s = findMaximum s;
          s = initializeCountArray s;
          s = countOccurrences s;
          s = calculateCumulativeCounts s;
          s = buildOutputArray s;
          s = copyToOriginal s
      in (\<lparr>sortedArray = outputArray s, result_steps = csteps s, result_stats = stats s\<rparr>, s))"

subsection \<open>What each phase leaves in the state\<close>

fun is_output :: "cstep \<Rightarrow> bool" where
  "is_output (Output i v p cb ca sn) = True"
| "is_output _ = False"

lemma cpush_fields [simp]:
  "cs_array (cpush st s) = cs_array s"
  "countArray (cpush st s) = countArray s"
  "outputArray (cpush st s) = outputArray s"
  "maxValue (cpush st s) = maxValue s"
  "csteps (cpush st s) = csteps s @ [st]"
  by (simp_all add: cpush_def)

text \<open>Phase 0: the maximum.\<close>

lemma findMaxStep_fields [simp]:
  "cs_array (snd (findMaxStep i ms)) = cs_array (snd ms)"
  "countArray (snd (findMaxStep i ms)) = countArray (snd ms)"
  "outputArray (snd (findMaxStep i ms)) = outputArray (snd ms)"
  "maxValue (snd (findMaxStep i ms)) = max (maxValue (snd ms)) (cs_array (snd ms) ! i)"
  "filter is_output (csteps (snd (findMaxStep i ms))) = filter is_output (csteps (snd ms))"
  by (simp_all add: findMaxStep_def Let_def max_def)

lemma findMax_loop:
  "cs_array (snd (fold findMaxStep [0..<k] ms)) = cs_array (snd ms) \<and>
   countArray (snd (fold findMaxStep [0..<k] ms)) = countArray (snd ms) \<and>
   outputArray (snd (fold findMaxStep [0..<k] ms)) = outputArray (snd ms) \<and>
   filter is_output (csteps (snd (fold findMaxStep [0..<k] ms))) =
     filter is_output (csteps (snd ms)) \<and>
   (\<forall>j<k. cs_array (snd ms) ! j \<le> maxValue (snd (fold findMaxStep [0..<k] ms))) \<and>
   maxValue (snd ms) \<le> maxValue (snd (fold findMaxStep [0..<k] ms))"
proof (induction k)
  case 0
  show ?case by simp
next
  case (Suc k)
  then show ?case by (auto simp: less_Suc_eq max_def)
qed

lemma findMaximum_fields [simp]:
  "cs_array (findMaximum s) = cs_array s"
  "countArray (findMaximum s) = countArray s"
  "outputArray (findMaximum s) = outputArray s"
  "filter is_output (csteps (findMaximum s)) = filter is_output (csteps s)"
  by (simp_all add: findMaximum_def Let_def findMax_loop)

lemma findMaximum_bound: "x \<in> set (cs_array s) \<Longrightarrow> x \<le> maxValue (findMaximum s)"
proof -
  assume "x \<in> set (cs_array s)"
  then obtain j where j: "j < length (cs_array s)" "cs_array s ! j = x"
    by (auto simp: in_set_conv_nth)
  let ?s = "(cpush (PhaseStart ''find-max'' (snapshot_empty s)) s)
              \<lparr>maxValue := (case cs_array s of [] \<Rightarrow> 0 | x # _ \<Rightarrow> x)\<rparr>"
  from findMax_loop[of "length (cs_array s)" "(0, ?s)"] j
  have "x \<le> maxValue (snd (fold findMaxStep [0..<length (cs_array s)] (0, ?s)))"
    by auto
  then show ?thesis by (simp add: findMaximum_def Let_def)
qed

text \<open>Phase 1: counting.\<close>

lemma initializeCountArray_fields [simp]:
  "cs_array (initializeCountArray s) = cs_array s"
  "countArray (initializeCountArray s) = replicate (maxValue s + 1) 0"
  "outputArray (initializeCountArray s) = replicate (length (cs_array s)) None"
  "maxValue (initializeCountArray s) = maxValue s"
  "filter is_output (csteps (initializeCountArray s)) = filter is_output (csteps s)"
  by (simp_all add: initializeCountArray_def Let_def)

lemma countStep_fields [simp]:
  "cs_array (countStep i s) = cs_array s"
  "countArray (countStep i s) =
     (countArray s)[cs_array s ! i := countArray s ! (cs_array s ! i) + 1]"
  "outputArray (countStep i s) = outputArray s"
  "maxValue (countStep i s) = maxValue s"
  "filter is_output (csteps (countStep i s)) = filter is_output (csteps s)"
  by (simp_all add: countStep_def Let_def)

text \<open>
  The number of elements of a list equal to, at most, and less than a value.
\<close>

definition cnt :: "nat list \<Rightarrow> nat \<Rightarrow> nat" where
  "cnt xs v = length (filter (\<lambda>x. x = v) xs)"

definition cle :: "nat list \<Rightarrow> nat \<Rightarrow> nat" where
  "cle xs v = length (filter (\<lambda>x. x \<le> v) xs)"

definition clt :: "nat list \<Rightarrow> nat \<Rightarrow> nat" where
  "clt xs v = length (filter (\<lambda>x. x < v) xs)"

lemma count_loop:
  assumes "\<forall>x\<in>set (cs_array s). x \<le> m" and "countArray s = replicate (m + 1) 0"
  shows "k \<le> length (cs_array s) \<Longrightarrow>
     cs_array (fold countStep [0..<k] s) = cs_array s \<and>
     outputArray (fold countStep [0..<k] s) = outputArray s \<and>
     maxValue (fold countStep [0..<k] s) = maxValue s \<and>
     filter is_output (csteps (fold countStep [0..<k] s)) = filter is_output (csteps s) \<and>
     length (countArray (fold countStep [0..<k] s)) = m + 1 \<and>
     (\<forall>v\<le>m. countArray (fold countStep [0..<k] s) ! v = int (cnt (take k (cs_array s)) v))"
proof (induction k)
  case 0
  show ?case using assms(2) by (simp add: cnt_def del: replicate.simps)
next
  case (Suc k)
  let ?s = "fold countStep [0..<k] s"
  from Suc have ih: "cs_array ?s = cs_array s" "outputArray ?s = outputArray s"
    "maxValue ?s = maxValue s"
    "filter is_output (csteps ?s) = filter is_output (csteps s)"
    "length (countArray ?s) = m + 1"
    "\<forall>v\<le>m. countArray ?s ! v = int (cnt (take k (cs_array s)) v)"
    and k: "k < length (cs_array s)" by simp_all
  have xm: "cs_array s ! k \<le> m" using assms(1) k by simp
  have tk: "take (Suc k) (cs_array s) = take k (cs_array s) @ [cs_array s ! k]"
    using k by (simp add: take_Suc_conv_app_nth)
  have "\<forall>v\<le>m. countArray (countStep k ?s) ! v = int (cnt (take (Suc k) (cs_array s)) v)"
    using ih xm unfolding tk by (auto simp: cnt_def nth_list_update)
  then show ?case using ih by simp
qed

lemma countOccurrences_fields:
  assumes "\<forall>x\<in>set (cs_array s). x \<le> m" and "countArray s = replicate (m + 1) 0"
  shows "cs_array (countOccurrences s) = cs_array s"
    "outputArray (countOccurrences s) = outputArray s"
    "maxValue (countOccurrences s) = maxValue s"
    "filter is_output (csteps (countOccurrences s)) = filter is_output (csteps s)"
    "length (countArray (countOccurrences s)) = m + 1"
    "\<forall>v\<le>m. countArray (countOccurrences s) ! v = int (cnt (cs_array s) v)"
  using count_loop[OF assms, of "length (cs_array s)"]
  by (simp_all add: countOccurrences_def Let_def)

text \<open>Phase 2: prefix sums.\<close>

lemma cle_0: "cle xs 0 = cnt xs 0"
  by (simp add: cle_def cnt_def)

lemma cle_Suc: "cle xs (Suc v) = cle xs v + cnt xs (Suc v)"
  unfolding cle_def cnt_def
  by (induction xs) auto

lemma cle_clt: "cle xs v = clt xs v + cnt xs v"
  unfolding cle_def clt_def cnt_def
  by (induction xs) auto

lemma cle_le_clt: "v < w \<Longrightarrow> cle xs v \<le> clt xs w"
  unfolding cle_def clt_def
  by (induction xs) auto

lemma cle_all: "\<forall>x\<in>set xs. x \<le> m \<Longrightarrow> cle xs m = length xs"
  unfolding cle_def by (induction xs) auto

lemma cnt_drop_le: "cnt (drop k xs) v \<le> cnt xs v"
proof -
  have "cnt xs v = cnt (take k xs) v + cnt (drop k xs) v"
    unfolding cnt_def by (metis append_take_drop_id filter_append length_append)
  then show ?thesis by simp
qed

lemma cnt_drop_Suc:
  "k < length xs \<Longrightarrow> cnt (drop k xs) v = cnt (drop (Suc k) xs) v + (if xs ! k = v then 1 else 0)"
  by (simp add: cnt_def Cons_nth_drop_Suc[symmetric])

lemma cumulativeStep_fields [simp]:
  "cs_array (cumulativeStep i s) = cs_array s"
  "countArray (cumulativeStep i s) = (countArray s)[i := countArray s ! i + countArray s ! (i - 1)]"
  "outputArray (cumulativeStep i s) = outputArray s"
  "maxValue (cumulativeStep i s) = maxValue s"
  "filter is_output (csteps (cumulativeStep i s)) = filter is_output (csteps s)"
  by (simp_all add: cumulativeStep_def Let_def)

lemma upt_1_Suc: "[1..<Suc (Suc k)] = [1..<Suc k] @ [Suc k]"
  by simp

lemma cumulative_loop:
  assumes "length (countArray s) = m + 1"
    and "\<forall>v\<le>m. countArray s ! v = int (cnt xs v)"
  shows "k \<le> m \<Longrightarrow>
     cs_array (fold cumulativeStep [1..<Suc k] s) = cs_array s \<and>
     outputArray (fold cumulativeStep [1..<Suc k] s) = outputArray s \<and>
     maxValue (fold cumulativeStep [1..<Suc k] s) = maxValue s \<and>
     filter is_output (csteps (fold cumulativeStep [1..<Suc k] s)) = filter is_output (csteps s) \<and>
     length (countArray (fold cumulativeStep [1..<Suc k] s)) = m + 1 \<and>
     (\<forall>v\<le>m. countArray (fold cumulativeStep [1..<Suc k] s) ! v =
         (if v \<le> k then int (cle xs v) else int (cnt xs v)))"
proof (induction k)
  case 0
  show ?case using assms by (auto simp: cle_0)
next
  case (Suc k)
  let ?s = "fold cumulativeStep [1..<Suc k] s"
  from Suc have ih: "cs_array ?s = cs_array s" "outputArray ?s = outputArray s"
    "maxValue ?s = maxValue s"
    "filter is_output (csteps ?s) = filter is_output (csteps s)"
    "length (countArray ?s) = m + 1"
    "\<forall>v\<le>m. countArray ?s ! v = (if v \<le> k then int (cle xs v) else int (cnt xs v))"
    and k: "Suc k \<le> m" by (simp_all del: upt_Suc)
  have eq: "fold cumulativeStep [1..<Suc (Suc k)] s = cumulativeStep (Suc k) ?s"
    unfolding upt_1_Suc by simp
  have a: "countArray ?s ! Suc k = int (cnt xs (Suc k))" "countArray ?s ! k = int (cle xs k)"
    using ih(6) k by auto
  have "\<forall>v\<le>m. countArray (cumulativeStep (Suc k) ?s) ! v =
         (if v \<le> Suc k then int (cle xs v) else int (cnt xs v))"
    using ih(5,6) k a by (auto simp: nth_list_update cle_Suc le_Suc_eq)
  then show ?case unfolding eq using ih by (simp del: upt_Suc)
qed

lemma calculateCumulativeCounts_fields:
  assumes "length (countArray s) = maxValue s + 1"
    and "\<forall>v\<le>maxValue s. countArray s ! v = int (cnt xs v)"
  shows "cs_array (calculateCumulativeCounts s) = cs_array s"
    "outputArray (calculateCumulativeCounts s) = outputArray s"
    "maxValue (calculateCumulativeCounts s) = maxValue s"
    "filter is_output (csteps (calculateCumulativeCounts s)) = filter is_output (csteps s)"
    "length (countArray (calculateCumulativeCounts s)) = maxValue s + 1"
    "\<forall>v\<le>maxValue s. countArray (calculateCumulativeCounts s) ! v = int (cle xs v)"
proof -
  let ?s = "cpush (PhaseStart ''cumulative'' (snapshot s)) s"
  have "length (countArray ?s) = maxValue s + 1"
    "\<forall>v\<le>maxValue s. countArray ?s ! v = int (cnt xs v)"
    using assms by simp_all
  from cumulative_loop[OF this, of "maxValue s"]
  show "cs_array (calculateCumulativeCounts s) = cs_array s"
    "outputArray (calculateCumulativeCounts s) = outputArray s"
    "maxValue (calculateCumulativeCounts s) = maxValue s"
    "filter is_output (csteps (calculateCumulativeCounts s)) = filter is_output (csteps s)"
    "length (countArray (calculateCumulativeCounts s)) = maxValue s + 1"
    "\<forall>v\<le>maxValue s. countArray (calculateCumulativeCounts s) ! v = int (cle xs v)"
    by (simp_all add: calculateCumulativeCounts_def Let_def del: upt_Suc)
qed

text \<open>Phase 3: the output array.\<close>

fun out_index :: "cstep \<Rightarrow> nat" where
  "out_index (Output i v p cb ca sn) = i"
| "out_index _ = 0"

fun good_output :: "nat list \<Rightarrow> cstep \<Rightarrow> bool" where
  "good_output xs (Output i v p cb ca sn) \<longleftrightarrow>
     i < length xs \<and> v = xs ! i \<and> p = cb - 1 \<and> ca = cb - 1 \<and>
     0 \<le> p \<and> nat p < length xs \<and> outputArray_snap sn ! nat p = Some v"
| "good_output xs _ \<longleftrightarrow> True"

definition out_inv :: "nat list \<Rightarrow> nat \<Rightarrow> nat \<Rightarrow> cstate \<Rightarrow> bool" where
  "out_inv xs m k s \<longleftrightarrow>
     cs_array s = xs \<and> length (countArray s) = m + 1 \<and>
     length (outputArray s) = length xs \<and>
     (\<forall>v\<le>m. countArray s ! v = int (cle xs v) - int (cnt (drop k xs) v)) \<and>
     (\<forall>p<length xs. \<forall>v. outputArray s ! p = Some v \<longleftrightarrow>
         v \<le> m \<and> countArray s ! v \<le> int p \<and> p < cle xs v)"

lemma outputStep_eq:
  "outputStep i s =
     (let v = cs_array s ! i;
          cb = countArray s ! v;
          c' = (countArray s)[v := cb - 1];
          o' = js_put (outputArray s) (cb - 1) v;
          st' = (stats s)\<lparr>arrayAccesses := arrayAccesses (stats s) + 2,
                          placements := placements (stats s) + 1\<rparr>
      in s\<lparr>outputArray := o', countArray := c', stats := st',
           csteps := csteps s @
             [Output i v (cb - 1) cb (c' ! v)
                \<lparr>inputArray_snap = cs_array s, countArray_snap = c',
                 outputArray_snap = o', stats_snap = st'\<rparr>]\<rparr>)"
  by (simp add: outputStep_def Let_def cpush_def snapshot_def)

lemma cle_le_length: "cle xs v \<le> length xs"
  by (simp add: cle_def)

lemma out_inv_step:
  assumes inv: "out_inv xs m (Suc k) s" and k: "k < length xs" and bound: "\<forall>x\<in>set xs. x \<le> m"
  shows "out_inv xs m k (outputStep k s) \<and>
         (\<exists>st. csteps (outputStep k s) = csteps s @ [st] \<and> is_output st \<and>
               out_index st = k \<and> good_output xs st)"
proof -
  let ?x = "xs ! k"
  let ?c = "countArray s"
  let ?o = "outputArray s"
  let ?pos = "?c ! ?x - 1"
  let ?c' = "?c[?x := ?c ! ?x - 1]"
  from inv have arr: "cs_array s = xs" and lc: "length ?c = m + 1"
    and lo: "length ?o = length xs"
    and cv: "\<And>v. v \<le> m \<Longrightarrow> ?c ! v = int (cle xs v) - int (cnt (drop (Suc k) xs) v)"
    and ov: "\<And>p v. p < length xs \<Longrightarrow>
        (?o ! p = Some v) = (v \<le> m \<and> ?c ! v \<le> int p \<and> p < cle xs v)"
    unfolding out_inv_def by auto
  have xm: "?x \<le> m" using bound k by simp
  have dk: "\<And>v. cnt (drop k xs) v = cnt (drop (Suc k) xs) v + (if ?x = v then 1 else 0)"
    using cnt_drop_Suc[OF k] by simp
  have lower: "\<And>v. v \<le> m \<Longrightarrow> int (clt xs v) \<le> ?c ! v"
    using cv cnt_drop_le[of "Suc k" xs] cle_clt[of xs] by (simp add: le_diff_eq)
  have posx: "?pos = int (cle xs ?x) - int (cnt (drop k xs) ?x)"
    using cv[OF xm] dk[of ?x] by simp
  have pos_lo: "int (clt xs ?x) \<le> ?pos"
    using posx cnt_drop_le[of k xs ?x] cle_clt[of xs ?x] by simp
  have pos_hi: "?pos < int (cle xs ?x)"
    using posx dk[of ?x] by simp
  have pos0: "0 \<le> ?pos" using pos_lo by simp
  have posn: "nat ?pos < length xs"
    using pos_hi cle_le_length[of xs ?x] pos0 by simp
  have put: "js_put ?o ?pos ?x = ?o[nat ?pos := Some ?x]"
    using pos0 posn lo by (simp add: js_put_def)
  have c'x: "?c' ! ?x = ?pos" using xm lc by simp
  have eq: "outputStep k s =
      s\<lparr>outputArray := ?o[nat ?pos := Some ?x], countArray := ?c',
        stats := (stats s)\<lparr>arrayAccesses := arrayAccesses (stats s) + 2,
                          placements := placements (stats s) + 1\<rparr>,
        csteps := csteps s @
          [Output k ?x ?pos (?c ! ?x) ?pos
             \<lparr>inputArray_snap = xs, countArray_snap = ?c',
              outputArray_snap = ?o[nat ?pos := Some ?x],
              stats_snap = (stats s)\<lparr>arrayAccesses := arrayAccesses (stats s) + 2,
                                      placements := placements (stats s) + 1\<rparr>\<rparr>]\<rparr>"
    unfolding outputStep_eq Let_def arr put c'x ..
  have c1: "\<forall>v\<le>m. ?c' ! v = int (cle xs v) - int (cnt (drop k xs) v)"
  proof (intro allI impI)
    fix v assume v: "v \<le> m"
    show "?c' ! v = int (cle xs v) - int (cnt (drop k xs) v)"
      using cv[OF v] dk[of v] lc v xm by (cases "v = ?x") (simp_all add: nth_list_update)
  qed
  have o1: "\<forall>p<length xs. \<forall>v. (?o[nat ?pos := Some ?x] ! p = Some v) =
      (v \<le> m \<and> ?c' ! v \<le> int p \<and> p < cle xs v)"
  proof (intro allI impI)
    fix p v assume p: "p < length xs"
    show "(?o[nat ?pos := Some ?x] ! p = Some v) = (v \<le> m \<and> ?c' ! v \<le> int p \<and> p < cle xs v)"
    proof (cases "p = nat ?pos")
      case True
      have a: "?o[nat ?pos := Some ?x] ! p = Some ?x" using True posn lo by simp
      show ?thesis
      proof (cases "v = ?x")
        case vx: True
        show ?thesis unfolding a vx c'x using xm True pos0 pos_hi by simp
      next
        case vx: False
        have "\<not> (v \<le> m \<and> ?c' ! v \<le> int p \<and> p < cle xs v)"
        proof
          assume h: "v \<le> m \<and> ?c' ! v \<le> int p \<and> p < cle xs v"
          have ip: "int p = ?pos" using True pos0 by simp
          have cc: "?c' ! v = ?c ! v" using vx by simp
          from h have "?c' ! v \<le> int p" "int p < int (cle xs v)" by simp_all
          then have cv': "?c ! v \<le> ?pos" and pv: "?pos < int (cle xs v)"
            unfolding ip cc by simp_all
          show False
          proof (cases "v < ?x")
            case True
            from cle_le_clt[OF True, of xs] pos_lo pv show False by simp
          next
            case False
            then have "?x < v" using vx by simp
            from cle_le_clt[OF this, of xs] lower[of v] h cv' pos_hi show False by simp
          qed
        qed
        then show ?thesis unfolding a using vx by auto
      qed
    next
      case False
      have a: "?o[nat ?pos := Some ?x] ! p = ?o ! p" using False by simp
      show ?thesis
      proof (cases "v = ?x")
        case vx: True
        have "(?pos \<le> int p) = (?c ! ?x \<le> int p)" using False pos0 by auto
        then show ?thesis unfolding a vx c'x using ov[OF p, of ?x] by simp
      next
        case vx: False
        then show ?thesis unfolding a using ov[OF p, of v] by (simp add: nth_list_update)
      qed
    qed
  qed
  have inv': "out_inv xs m k (outputStep k s)"
    unfolding eq out_inv_def using arr lc lo c1 o1 by simp
  have "good_output xs (Output k ?x ?pos (?c ! ?x) ?pos
             \<lparr>inputArray_snap = xs, countArray_snap = ?c',
              outputArray_snap = ?o[nat ?pos := Some ?x],
              stats_snap = (stats s)\<lparr>arrayAccesses := arrayAccesses (stats s) + 2,
                                      placements := placements (stats s) + 1\<rparr>\<rparr>)"
    using k pos0 posn lo by simp
  then show ?thesis using inv' unfolding eq by simp
qed

lemma output_loop:
  "k \<le> length xs \<Longrightarrow> out_inv xs m k s \<Longrightarrow> \<forall>x\<in>set xs. x \<le> m \<Longrightarrow>
   \<exists>L. out_inv xs m 0 (fold outputStep (rev [0..<k]) s) \<and>
       csteps (fold outputStep (rev [0..<k]) s) = csteps s @ L \<and>
       (\<forall>st\<in>set L. is_output st \<and> good_output xs st) \<and>
       map out_index L = rev [0..<k]"
proof (induction k arbitrary: s)
  case 0
  then show ?case by simp
next
  case (Suc k)
  have k: "k < length xs" using Suc.prems(1) by simp
  from out_inv_step[OF Suc.prems(2) k Suc.prems(3)]
  obtain st where inv: "out_inv xs m k (outputStep k s)"
    and st: "csteps (outputStep k s) = csteps s @ [st]" "is_output st" "out_index st = k"
      "good_output xs st"
    by blast
  have "k \<le> length xs" using k by simp
  from Suc.IH[OF this inv Suc.prems(3)]
  obtain L where L: "out_inv xs m 0 (fold outputStep (rev [0..<k]) (outputStep k s))"
    "csteps (fold outputStep (rev [0..<k]) (outputStep k s)) = csteps (outputStep k s) @ L"
    "\<forall>st\<in>set L. is_output st \<and> good_output xs st" "map out_index L = rev [0..<k]"
    by blast
  have "out_inv xs m 0 (fold outputStep (rev [0..<Suc k]) s) \<and>
       csteps (fold outputStep (rev [0..<Suc k]) s) = csteps s @ (st # L) \<and>
       (\<forall>st\<in>set (st # L). is_output st \<and> good_output xs st) \<and>
       map out_index (st # L) = rev [0..<Suc k]"
    unfolding rev_upt_Suc_fold using L st by simp
  then show ?case by blast
qed

lemma clt_0: "clt xs 0 = 0"
  by (simp add: clt_def)

lemma clt_Suc: "clt xs (Suc u) = cle xs u"
  by (simp add: clt_def cle_def less_Suc_eq_le)

lemma cnt_above: "\<forall>x\<in>set xs. x \<le> m \<Longrightarrow> m < v \<Longrightarrow> cnt xs v = 0"
  unfolding cnt_def by (induction xs) auto

lemma cnt_count: "count (mset xs) v = cnt xs v"
  unfolding cnt_def by (induction xs) auto

lemma out_inv_final:
  assumes inv: "out_inv xs m 0 s" and bound: "\<forall>x\<in>set xs. x \<le> m"
  shows "\<exists>ys. outputArray s = map Some ys \<and> sorted ys \<and> mset ys = mset xs"
proof -
  let ?n = "length xs"
  let ?o = "outputArray s"
  from inv have lo: "length ?o = ?n"
    and ov: "\<And>p v. p < ?n \<Longrightarrow> (?o ! p = Some v) = (v \<le> m \<and> clt xs v \<le> p \<and> p < cle xs v)"
    unfolding out_inv_def using cle_clt[of xs] by auto
  have ex: "\<exists>v. ?o ! p = Some v" if p: "p < ?n" for p
  proof -
    let ?v = "LEAST v. p < cle xs v"
    have pm: "p < cle xs m" using cle_all[OF bound] p by simp
    then have a: "p < cle xs ?v" by (rule LeastI)
    have b: "?v \<le> m" using pm by (rule Least_le)
    have "clt xs ?v \<le> p"
    proof (cases ?v)
      case 0
      then show ?thesis by (simp add: clt_0)
    next
      case (Suc u)
      then have "u < ?v" by simp
      then have "\<not> p < cle xs u" by (rule not_less_Least)
      then show ?thesis unfolding Suc clt_Suc by simp
    qed
    with a b ov[OF p, of ?v] show ?thesis by blast
  qed
  define ys where "ys = map the ?o"
  have ly: "length ys = ?n" by (simp add: ys_def lo)
  have oy: "?o ! p = Some (ys ! p)" if "p < ?n" for p
    using ex[OF that] that lo by (auto simp: ys_def)
  have eq: "?o = map Some ys"
    by (rule nth_equalityI) (simp_all add: lo ly oy)
  have yv: "(ys ! p = v) = (v \<le> m \<and> clt xs v \<le> p \<and> p < cle xs v)" if "p < ?n" for p v
    using ov[OF that, of v] oy[OF that] by simp
  have srt: "sorted ys"
    unfolding sorted_iff_nth_mono
  proof (intro allI impI)
    fix i j assume ij: "i \<le> j" and j: "j < length ys"
    have i: "i < ?n" and j': "j < ?n" using ij j ly by simp_all
    from yv[OF i, of "ys ! i"] yv[OF j', of "ys ! j"]
    have a: "clt xs (ys ! i) \<le> i" "j < cle xs (ys ! j)" by simp_all
    show "ys ! i \<le> ys ! j"
    proof (rule ccontr)
      assume "\<not> ys ! i \<le> ys ! j"
      then have "ys ! j < ys ! i" by simp
      from cle_le_clt[OF this, of xs] a ij show False by simp
    qed
  qed
  have "count (mset ys) v = count (mset xs) v" for v
  proof (cases "v \<le> m")
    case True
    have h: "(p < length ys \<and> ys ! p = v) = (clt xs v \<le> p \<and> p < cle xs v)" for p
    proof (cases "p < length xs")
      case pn: True
      show ?thesis using yv[OF pn, of v] True pn ly by simp
    next
      case pn: False
      then show ?thesis using cle_le_length[of xs v] ly by simp
    qed
    have "{p. p < length ys \<and> ys ! p = v} = {p. clt xs v \<le> p \<and> p < cle xs v}"
      by (rule Collect_cong) (rule h)
    also have "\<dots> = {clt xs v..<cle xs v}" by (rule set_eqI) simp
    finally have "{p. p < length ys \<and> ys ! p = v} = {clt xs v..<cle xs v}" .
    then have "cnt ys v = cle xs v - clt xs v"
      unfolding cnt_def length_filter_conv_card by simp
    then show ?thesis unfolding cnt_count using cle_clt[of xs v] by simp
  next
    case False
    have h: "(p < length ys \<and> ys ! p = v) = False" for p
    proof (cases "p < length xs")
      case pn: True
      show ?thesis using yv[OF pn, of v] False by simp
    next
      case pn: False
      then show ?thesis using ly by simp
    qed
    have "{p. p < length ys \<and> ys ! p = v} = {p. False}"
      by (rule Collect_cong) (rule h)
    then have "{p. p < length ys \<and> ys ! p = v} = {}"
      by simp
    then have "cnt ys v = 0"
      unfolding cnt_def length_filter_conv_card by simp
    then show ?thesis unfolding cnt_count using cnt_above[OF bound, of v] False by simp
  qed
  then have "mset ys = mset xs" by (rule multiset_eqI)
  with eq srt show ?thesis by blast
qed

subsection \<open>The whole sort\<close>

lemma not_output_good: "\<not> is_output st \<Longrightarrow> good_output xs st"
  by (cases st) simp_all

lemma buildOutputArray_run:
  assumes arr: "cs_array s = xs" and lc: "length (countArray s) = m + 1"
    and lo: "outputArray s = replicate (length xs) None"
    and cv: "\<forall>v\<le>m. countArray s ! v = int (cle xs v)"
    and bound: "\<forall>x\<in>set xs. x \<le> m"
    and no: "filter is_output (csteps s) = []"
  shows "\<exists>ys L. outputArray (buildOutputArray s) = map Some ys \<and> sorted ys \<and> mset ys = mset xs \<and>
           filter is_output (csteps (buildOutputArray s)) = L \<and>
           (\<forall>st\<in>set L. good_output xs st) \<and> map out_index L = rev [0..<length xs]"
proof -
  let ?s = "cpush (PhaseStart ''output'' (snapshot s)) s"
  have inv: "out_inv xs m (length xs) ?s"
    unfolding out_inv_def using arr lc lo cv by (auto simp: cnt_def)
  from output_loop[OF le_refl inv bound]
  obtain L where L: "out_inv xs m 0 (fold outputStep (rev [0..<length xs]) ?s)"
    "csteps (fold outputStep (rev [0..<length xs]) ?s) = csteps ?s @ L"
    "\<forall>st\<in>set L. is_output st \<and> good_output xs st" "map out_index L = rev [0..<length xs]"
    by blast
  from out_inv_final[OF L(1) bound]
  obtain ys where ys: "outputArray (fold outputStep (rev [0..<length xs]) ?s) = map Some ys"
    "sorted ys" "mset ys = mset xs" by blast
  have fl: "filter is_output L = L" using L(3) by (simp add: filter_id_conv)
  have "outputArray (buildOutputArray s) = map Some ys"
    "filter is_output (csteps (buildOutputArray s)) = L"
    using ys(1) L(2) no fl by (simp_all add: buildOutputArray_def Let_def arr)
  with ys L show ?thesis by blast
qed

lemma cs_solve_run:
  assumes "cs_originalArray s = xs"
  shows "\<exists>ys L. sortedArray (fst (cs_solve s)) = map Some ys \<and> sorted ys \<and> mset ys = mset xs \<and>
           filter is_output (result_steps (fst (cs_solve s))) = L \<and>
           (\<forall>st\<in>set L. good_output xs st) \<and> map out_index L = rev [0..<length xs]"
proof -
  let ?s0 = "cs_resetState s"
  let ?s1 = "findMaximum ?s0"
  let ?s2 = "initializeCountArray ?s1"
  let ?s3 = "countOccurrences ?s2"
  let ?s4 = "calculateCumulativeCounts ?s3"
  let ?m = "maxValue ?s1"
  have a0: "cs_array ?s0 = xs" "csteps ?s0 = []"
    using assms by (simp_all add: cs_resetState_def)
  have bound: "\<forall>x\<in>set xs. x \<le> ?m"
    using findMaximum_bound[of _ ?s0] a0 by simp
  have a2: "cs_array ?s2 = xs" "countArray ?s2 = replicate (?m + 1) 0"
    "outputArray ?s2 = replicate (length xs) None" "maxValue ?s2 = ?m"
    "filter is_output (csteps ?s2) = []"
    using a0 by simp_all
  have b2: "\<forall>x\<in>set (cs_array ?s2). x \<le> ?m" using bound a2(1) by simp
  note c3 = countOccurrences_fields[OF b2 a2(2)]
  have a3: "length (countArray ?s3) = maxValue ?s3 + 1"
    "\<forall>v\<le>maxValue ?s3. countArray ?s3 ! v = int (cnt xs v)"
    using c3 a2 by simp_all
  note c4 = calculateCumulativeCounts_fields[OF a3]
  have a4: "cs_array ?s4 = xs" "length (countArray ?s4) = ?m + 1"
    "outputArray ?s4 = replicate (length xs) None"
    "\<forall>v\<le>?m. countArray ?s4 ! v = int (cle xs v)"
    "filter is_output (csteps ?s4) = []"
    using c4 c3 a2 by simp_all
  from buildOutputArray_run[OF a4(1,2,3,4) bound a4(5)]
  show ?thesis
    by (simp add: cs_solve_def Let_def copyToOriginal_def)
qed

text \<open>
  Claim C5. For every input array (empty or not) \<^verbatim>\<open>CountingSortSolver.solve()\<close> returns
  a \<^verbatim>\<open>sortedArray\<close> with no \<^verbatim>\<open>null\<close> left, non-decreasing and a permutation of the
  input. The \<^verbatim>\<open>output\<close> steps of the trace visit the input indices from the last down
  to 0, and each of them places \<open>value = array[inputIndex]\<close> at
  \<open>outputPosition = countBefore - 1\<close>, a position inside the output array that holds the
  value in the step's snapshot, and leaves \<open>countAfter = countBefore - 1\<close>.
\<close>

theorem counting_sort_correct:
  assumes "r = fst (cs_solve (newCountingSortSolver xs))"
  shows "(\<exists>ys. sortedArray r = map Some ys \<and> sorted ys \<and> mset ys = mset xs) \<and>
         map out_index (filter is_output (result_steps r)) = rev [0..<length xs] \<and>
         (\<forall>st\<in>set (result_steps r). good_output xs st)"
proof -
  have "cs_originalArray (newCountingSortSolver xs) = xs"
    by (simp add: newCountingSortSolver_def)
  from cs_solve_run[OF this]
  obtain ys L where h: "sortedArray r = map Some ys" "sorted ys" "mset ys = mset xs"
    "filter is_output (result_steps r) = L" "\<forall>st\<in>set L. good_output xs st"
    "map out_index L = rev [0..<length xs]"
    unfolding assms by blast
  have "good_output xs st" if "st \<in> set (result_steps r)" for st
  proof (cases "is_output st")
    case True
    then have "st \<in> set L" using that h(4) by auto
    then show ?thesis using h(5) by blast
  next
    case False
    then show ?thesis by (rule not_output_good)
  qed
  with h show ?thesis by blast
qed

theorem counting_sort_correct_witness:
  "sortedArray (fst (cs_solve (newCountingSortSolver [4, 2, 2, 8, 3, 3, 1]))) =
     map Some [1, 2, 2, 3, 3, 4, 8] \<and>
   map out_index (filter is_output
      (result_steps (fst (cs_solve (newCountingSortSolver [4, 2, 2, 8, 3, 3, 1]))))) =
     [6, 5, 4, 3, 2, 1, 0]"
proof -
  let ?r = "fst (cs_solve (newCountingSortSolver [4, 2, 2, 8, 3, 3, 1]))"
  from counting_sort_correct[OF refl, of "[4, 2, 2, 8, 3, 3, 1]"]
  obtain ys where ys: "sortedArray ?r = map Some ys" "sorted ys"
    "mset ys = mset [4, 2, 2, 8, 3, 3, 1]"
    and ix: "map out_index (filter is_output (result_steps ?r)) =
       rev [0..<length [4, 2, 2, 8, 3, 3, 1 :: nat]]"
    by blast
  from properties_for_sort[OF ys(3) ys(2)] have "ys = [1, 2, 2, 3, 3, 4, 8]" by simp
  moreover have "rev [0..<length [4, 2, 2, 8, 3, 3, 1 :: nat]] = [6, 5, 4, 3, 2, 1, 0]"
    by (simp add: upt_rec)
  ultimately show ?thesis using ys(1) ix by simp
qed

section \<open>StrassenSolver\<close>

subsection \<open>Numbers\<close>

text \<open>
  The entries of the matrices are JavaScript numbers, binary64 floating point. The solver
  is given integers and only adds, subtracts and multiplies, so every finite value it
  computes is an integer: \<open>Num x\<close>, where \<open>Num 0\<close> is the zero \<^verbatim>\<open>+0\<close>, or the negative
  zero \<^verbatim>\<open>-0\<close>, \<open>NegZero\<close>. The result of an operation is the exact result rounded to the
  nearest number with a significand of 53 bits, ties to the even significand
  (\<open>round53\<close>), or an infinity when the rounded magnitude reaches \<open>2\<^sup>1\<^sup>0\<^sup>2\<^sup>4\<close> (\<open>fin\<close>). A sum
  that is exactly zero is \<^verbatim>\<open>+0\<close> unless both terms are \<^verbatim>\<open>-0\<close>; \<^verbatim>\<open>x - y\<close> is
  \<^verbatim>\<open>x + (-y)\<close>; the sign of a product, also of a zero and of an infinite one, is negative
  when exactly one factor is negative. \<open>jeq\<close> is the comparison \<^verbatim>\<open>===\<close> of two numbers,
  which does not tell the two zeros apart.
\<close>

datatype jsnum = Num int | NegZero | PInf | NInf | NaN

function bitlen :: "int \<Rightarrow> nat" where
  "bitlen a = (if a \<le> 0 then 0 else Suc (bitlen (a div 2)))"
  by pat_completeness auto
termination
  by (relation "measure nat") auto

declare bitlen.simps [simp del]

definition round53 :: "int \<Rightarrow> int" where
  "round53 x =
     (let a = \<bar>x\<bar>
      in if a \<le> 2 ^ 53 then x
         else
           (let e = bitlen a - 53;
                q = a div 2 ^ e;
                r = a mod 2 ^ e;
                half = 2 ^ (e - 1);
                q = (if half < r \<or> (r = half \<and> odd q) then q + 1 else q)
            in sgn x * (q * 2 ^ e)))"

definition fin :: "int \<Rightarrow> jsnum" where
  "fin x =
     (let r = round53 x
      in if 2 ^ 1024 \<le> r then PInf else if r \<le> - (2 ^ 1024) then NInf else Num r)"

fun isNeg :: "jsnum \<Rightarrow> bool" where
  "isNeg (Num a) = (a < 0)"
| "isNeg NegZero = True"
| "isNeg NInf = True"
| "isNeg PInf = False"
| "isNeg NaN = False"

fun isZero :: "jsnum \<Rightarrow> bool" where
  "isZero (Num a) = (a = 0)"
| "isZero NegZero = True"
| "isZero _ = False"

fun isInf :: "jsnum \<Rightarrow> bool" where
  "isInf PInf = True"
| "isInf NInf = True"
| "isInf _ = False"

fun ival :: "jsnum \<Rightarrow> int" where
  "ival (Num a) = a"
| "ival _ = 0"

fun jneg :: "jsnum \<Rightarrow> jsnum" where
  "jneg (Num a) = (if a = 0 then NegZero else Num (- a))"
| "jneg NegZero = Num 0"
| "jneg PInf = NInf"
| "jneg NInf = PInf"
| "jneg NaN = NaN"

fun jadd :: "jsnum \<Rightarrow> jsnum \<Rightarrow> jsnum" where
  "jadd (Num a) (Num b) = fin (a + b)"
| "jadd NaN _ = NaN"
| "jadd _ NaN = NaN"
| "jadd NegZero y = y"
| "jadd x NegZero = x"
| "jadd PInf NInf = NaN"
| "jadd NInf PInf = NaN"
| "jadd PInf _ = PInf"
| "jadd _ PInf = PInf"
| "jadd NInf _ = NInf"
| "jadd _ NInf = NInf"

definition jsub :: "jsnum \<Rightarrow> jsnum \<Rightarrow> jsnum" where
  "jsub x y = jadd x (jneg y)"

definition jmul :: "jsnum \<Rightarrow> jsnum \<Rightarrow> jsnum" where
  "jmul x y =
     (if x = NaN \<or> y = NaN then NaN
      else if (isZero x \<and> isInf y) \<or> (isInf x \<and> isZero y) then NaN
      else if isInf x \<or> isInf y then (if isNeg x \<noteq> isNeg y then NInf else PInf)
      else if isZero x \<or> isZero y then (if isNeg x \<noteq> isNeg y then NegZero else Num 0)
      else fin (ival x * ival y))"

definition jeq :: "jsnum \<Rightarrow> jsnum \<Rightarrow> bool" where
  "jeq x y \<longleftrightarrow> x \<noteq> NaN \<and> y \<noteq> NaN \<and> (x = y \<or> (isZero x \<and> isZero y))"

subsection \<open>The solver\<close>

text \<open>
  \<^verbatim>\<open>src/components/strassen/solver.js\<close>. A matrix is a list of rows of numbers.
  \<open>mk n f\<close> is the \<open>n \<times> n\<close> array that the source allocates with
  \<^verbatim>\<open>Array(n).fill(null).map(() => Array(n).fill(0))\<close> and fills by two nested loops with the
  entry \<open>f i j\<close> at \<open>(i, j)\<close>. A step is a tagged variant, one constructor for each
  \<^verbatim>\<open>type\<close>, with its depth, matrices and counters; the explanatory strings are left out.
  The entry reads of the solver are in range for square matrices of equal size, which
  the theorems assume.
\<close>

type_synonym matrix = "jsnum list list"

definition mk :: "nat \<Rightarrow> (nat \<Rightarrow> nat \<Rightarrow> 'a) \<Rightarrow> 'a list list" where
  "mk n f = map (\<lambda>i. map (\<lambda>j. f i j) [0..<n]) [0..<n]"

record sstats =
  multiplications :: nat
  additions :: nat
  recursionDepth :: nat
  maxDepth :: nat

datatype sstep =
    SInit matrix matrix sstats
  | SComplete matrix matrix matrix sstats
  | SBaseCase nat matrix matrix matrix sstats
  | SDivide nat matrix matrix "matrix list" "matrix list" sstats
  | SCombine nat matrix "matrix list" sstats
  | S2x2Start nat matrix matrix sstats
  | SProduct string jsnum nat sstats
  | S2x2Combine nat "jsnum list" matrix sstats

record sstate =
  ssteps :: "sstep list"
  st_stats :: sstats

datatype js_error = TypeError | RangeError

definition st_resetState :: sstate where
  "st_resetState =
     \<lparr>ssteps = [],
      st_stats = \<lparr>multiplications = 0, additions = 0, recursionDepth = 0, maxDepth = 0\<rparr>\<rparr>"

definition spush :: "(sstats \<Rightarrow> sstep) \<Rightarrow> sstate \<Rightarrow> sstate" where
  "spush mkstep s = s\<lparr>ssteps := ssteps s @ [mkstep (st_stats s)]\<rparr>"

definition count_ops :: "nat \<Rightarrow> nat \<Rightarrow> sstate \<Rightarrow> sstate" where
  "count_ops mults adds s =
     s\<lparr>st_stats := (st_stats s)\<lparr>multiplications := multiplications (st_stats s) + mults,
                                  additions := additions (st_stats s) + adds\<rparr>\<rparr>"

text \<open>
  \<^verbatim>\<open>_addMatrices\<close> and \<^verbatim>\<open>_subtractMatrices\<close>: the size is that of the first argument, and
  \<^verbatim>\<open>stats.additions\<close> grows by one for each entry.
\<close>

definition addMatrices :: "matrix \<Rightarrow> matrix \<Rightarrow> sstate \<Rightarrow> matrix \<times> sstate" where
  "addMatrices A B s =
     (let n = length A
      in (mk n (\<lambda>i j. jadd (A ! i ! j) (B ! i ! j)), count_ops 0 (n * n) s))"

definition subtractMatrices :: "matrix \<Rightarrow> matrix \<Rightarrow> sstate \<Rightarrow> matrix \<times> sstate" where
  "subtractMatrices A B s =
     (let n = length A
      in (mk n (\<lambda>i j. jsub (A ! i ! j) (B ! i ! j)), count_ops 0 (n * n) s))"

text \<open>
  \<^verbatim>\<open>_splitMatrix\<close>: \<^verbatim>\<open>mid = n / 2\<close> is not an integer for odd \<open>n\<close>, and then
  \<^verbatim>\<open>M[i + mid]\<close> is \<^verbatim>\<open>undefined\<close> in the first round of the loop, whose \<^verbatim>\<open>.slice\<close> raises
  a \<^verbatim>\<open>TypeError\<close>.
\<close>

definition splitMatrix :: "matrix \<Rightarrow> js_error + (matrix \<times> matrix \<times> matrix \<times> matrix)" where
  "splitMatrix M =
     (let n = length M; mid = n div 2
      in if odd n then Inl TypeError
         else Inr (map (\<lambda>i. take mid (M ! i)) [0..<mid],
                   map (\<lambda>i. drop mid (M ! i)) [0..<mid],
                   map (\<lambda>i. take mid (M ! (i + mid))) [0..<mid],
                   map (\<lambda>i. drop mid (M ! (i + mid))) [0..<mid]))"

definition combineQuadrants :: "matrix \<Rightarrow> matrix \<Rightarrow> matrix \<Rightarrow> matrix \<Rightarrow> matrix" where
  "combineQuadrants C11 C12 C21 C22 =
     (let n = length C11 * 2; mid = n div 2
      in mk n (\<lambda>i j. if i < mid then (if j < mid then C11 ! i ! j else C12 ! i ! (j - mid))
                       else (if j < mid then C21 ! (i - mid) ! j
                             else C22 ! (i - mid) ! (j - mid))))"

text \<open>
  \<^verbatim>\<open>_strassen2x2\<close>. \<^verbatim>\<open>M1 + M4 - M5 + M7\<close> and \<^verbatim>\<open>M1 - M2 + M3 + M6\<close> associate to the
  left, and every operation rounds.
\<close>

definition strassen2x2 :: "matrix \<Rightarrow> matrix \<Rightarrow> nat \<Rightarrow> sstate \<Rightarrow> matrix \<times> sstate" where
  "strassen2x2 A B depth s =
     (let a = A ! 0 ! 0; b = A ! 0 ! 1; c = A ! 1 ! 0; d = A ! 1 ! 1;
          e = B ! 0 ! 0; f = B ! 0 ! 1; g = B ! 1 ! 0; h = B ! 1 ! 1;
          s = spush (S2x2Start depth A B) s;
          M1 = jmul (jadd a d) (jadd e h);
          s = spush (SProduct ''M1'' M1 depth) (count_ops 1 2 s);
          M2 = jmul (jadd c d) e;
          s = spush (SProduct ''M2'' M2 depth) (count_ops 1 1 s);
          M3 = jmul a (jsub f h);
          s = spush (SProduct ''M3'' M3 depth) (count_ops 1 1 s);
          M4 = jmul d (jsub g e);
          s = spush (SProduct ''M4'' M4 depth) (count_ops 1 1 s);
          M5 = jmul (jadd a b) h;
          s = spush (SProduct ''M5'' M5 depth) (count_ops 1 1 s);
          M6 = jmul (jsub c a) (jadd e f);
          s = spush (SProduct ''M6'' M6 depth) (count_ops 1 2 s);
          M7 = jmul (jsub b d) (jadd g h);
          s = spush (SProduct ''M7'' M7 depth) (count_ops 1 2 s);
          C11 = jadd (jsub (jadd M1 M4) M5) M7;
          C12 = jadd M3 M5;
          C21 = jadd M2 M4;
          C22 = jadd (jadd (jsub M1 M2) M3) M6;
          s = count_ops 0 8 s;
          result = [[C11, C12], [C21, C22]];
          s = spush (S2x2Combine depth [M1, M2, M3, M4, M5, M6, M7] result) s
      in (result, s))"

definition enterStrassen :: "nat \<Rightarrow> sstate \<Rightarrow> sstate" where
  "enterStrassen depth s =
     s\<lparr>st_stats := (st_stats s)\<lparr>recursionDepth := depth,
                                  maxDepth := max (maxDepth (st_stats s)) depth\<rparr>\<rparr>"

text \<open>
  \<^verbatim>\<open>naiveMultiply\<close>: each entry starts at \<^verbatim>\<open>0\<close> and takes the products in the order of
  \<open>k\<close>, by \<^verbatim>\<open>result[i][j] += A[i][k] * B[k][j]\<close>.
\<close>

definition naiveMultiply :: "matrix \<Rightarrow> matrix \<Rightarrow> matrix" where
  "naiveMultiply A B =
     (let n = length A
      in mk n (\<lambda>i j. fold (\<lambda>k acc. jadd acc (jmul (A ! i ! k) (B ! k ! j))) [0..<n] (Num 0)))"

text \<open>
  An exception of the source is \<open>Inl\<close> of the result; \<open>bindE\<close> passes it on, as the
  exception propagates through the callers.
\<close>

definition bindE :: "js_error + 'a \<Rightarrow> ('a \<Rightarrow> js_error + 'b) \<Rightarrow> js_error + 'b" where
  "bindE m f = (case m of Inl e \<Rightarrow> Inl e | Inr x \<Rightarrow> f x)"

lemma bindE_cong [fundef_cong]:
  "m = m' \<Longrightarrow> (\<And>x. m' = Inr x \<Longrightarrow> f x = f' x) \<Longrightarrow> bindE m f = bindE m' f'"
  by (auto simp: bindE_def split: sum.splits)

lemma length_mk [simp]: "length (mk n f) = n"
  by (simp add: mk_def)

lemma addMatrices_length:
  "(X, s') = addMatrices A B s \<Longrightarrow> length X = length A"
  by (simp add: addMatrices_def Let_def)

lemma subtractMatrices_length:
  "(X, s') = subtractMatrices A B s \<Longrightarrow> length X = length A"
  by (simp add: subtractMatrices_def Let_def)

lemma splitMatrix_length:
  "splitMatrix M = Inr (M11, M12, M21, M22) \<Longrightarrow> M \<noteq> [] \<Longrightarrow>
   length M11 < length M \<and> length M12 < length M \<and>
   length M21 < length M \<and> length M22 < length M"
  by (auto simp: splitMatrix_def Let_def split: if_splits)

text \<open>
  \<^verbatim>\<open>_strassen\<close>. For an empty matrix the source recurses on empty quadrants without end,
  which the runtime ends with a \<^verbatim>\<open>RangeError\<close> (call stack exceeded).
\<close>

function strassen :: "matrix \<Rightarrow> matrix \<Rightarrow> nat \<Rightarrow> sstate \<Rightarrow> js_error + (matrix \<times> sstate)" where
  "strassen A B depth s =
     (let n = length A;
          s = enterStrassen depth s
      in if n = 1 then
           (let s = count_ops 1 0 s;
                result = [[jmul (A ! 0 ! 0) (B ! 0 ! 0)]]
            in Inr (result, spush (SBaseCase depth A B result) s))
         else if n = 2 then Inr (strassen2x2 A B depth s)
         else if n = 0 then Inl RangeError
         else
           bindE (splitMatrix A) (\<lambda>(A11, A12, A21, A22).
           bindE (splitMatrix B) (\<lambda>(B11, B12, B21, B22).
             let s = spush (SDivide depth A B [A11, A12, A21, A22] [B11, B12, B21, B22]) s;
                 (X, s) = addMatrices A11 A22 s;
                 (Y, s) = addMatrices B11 B22 s
             in bindE (strassen X Y (depth + 1) s) (\<lambda>(M1, s).
             let (X, s) = addMatrices A21 A22 s
             in bindE (strassen X B11 (depth + 1) s) (\<lambda>(M2, s).
             let (Y, s) = subtractMatrices B12 B22 s
             in bindE (strassen A11 Y (depth + 1) s) (\<lambda>(M3, s).
             let (Y, s) = subtractMatrices B21 B11 s
             in bindE (strassen A22 Y (depth + 1) s) (\<lambda>(M4, s).
             let (X, s) = addMatrices A11 A12 s
             in bindE (strassen X B22 (depth + 1) s) (\<lambda>(M5, s).
             let (X, s) = subtractMatrices A21 A11 s;
                 (Y, s) = addMatrices B11 B12 s
             in bindE (strassen X Y (depth + 1) s) (\<lambda>(M6, s).
             let (X, s) = subtractMatrices A12 A22 s;
                 (Y, s) = addMatrices B21 B22 s
             in bindE (strassen X Y (depth + 1) s) (\<lambda>(M7, s).
             let (T, s) = addMatrices M1 M4 s;
                 (T, s) = subtractMatrices T M5 s;
                 (C11, s) = addMatrices T M7 s;
                 (C12, s) = addMatrices M3 M5 s;
                 (C21, s) = addMatrices M2 M4 s;
                 (T, s) = addMatrices M1 M3 s;
                 (T, s) = subtractMatrices T M2 s;
                 (C22, s) = addMatrices T M6 s;
                 result = combineQuadrants C11 C12 C21 C22
             in Inr (result, spush (SCombine depth result [C11, C12, C21, C22]) s)))))))))))"
  by pat_completeness auto
termination
  apply (relation "measure (\<lambda>(A, B, depth, s). length A)")
         apply simp
        apply (auto dest!: splitMatrix_length
                    simp: addMatrices_def subtractMatrices_def Let_def)
  done

declare strassen.simps [simp del]

record sresult =
  result :: matrix
  res_steps :: "sstep list"
  res_stats :: sstats

definition st_solve :: "matrix \<Rightarrow> matrix \<Rightarrow> js_error + sresult" where
  "st_solve matrixA matrixB =
     (let s = st_resetState;
          s = spush (SInit matrixA matrixB) s
      in bindE (strassen matrixA matrixB 0 s) (\<lambda>(res, s).
           let s = spush (SComplete matrixA matrixB res) s
           in Inr \<lparr>result = res, res_steps = ssteps s, res_stats = st_stats s\<rparr>))"

text \<open>The matrix of numbers whose entries are the given integers.\<close>

definition ofInts :: "int list list \<Rightarrow> matrix" where
  "ofInts M = map (map Num) M"

subsection \<open>Strassen against the cubic product\<close>

text \<open>
  \<open>is_int x v\<close>: the number \<open>v\<close> is the integer \<open>x\<close>, a zero of either sign when \<open>x = 0\<close>.
  An operation on such numbers whose exact result is at most \<open>2\<^sup>5\<^sup>3\<close> in absolute value
  returns it. \<open>rep n f M\<close>: \<open>M\<close> is an \<open>n \<times> n\<close> matrix whose entry at \<open>(i, j)\<close> is the integer
  \<open>f i j\<close>; \<open>bd n c f\<close> bounds these integers by \<open>c\<close>; \<open>mm f g n\<close> is the exact product.
\<close>

definition is_int :: "int \<Rightarrow> jsnum \<Rightarrow> bool" where
  "is_int x v \<longleftrightarrow> v = Num x \<or> (x = 0 \<and> v = NegZero)"

definition sq :: "nat \<Rightarrow> 'a list list \<Rightarrow> bool" where
  "sq n M \<longleftrightarrow> length M = n \<and> (\<forall>r\<in>set M. length r = n)"

definition mm :: "(nat \<Rightarrow> nat \<Rightarrow> int) \<Rightarrow> (nat \<Rightarrow> nat \<Rightarrow> int) \<Rightarrow> nat \<Rightarrow> nat \<Rightarrow> nat \<Rightarrow> int" where
  "mm f g n i j = (\<Sum>k<n. f i k * g k j)"

definition ent :: "'a list list \<Rightarrow> nat \<Rightarrow> nat \<Rightarrow> 'a" where
  "ent M i j = M ! i ! j"

definition bd :: "nat \<Rightarrow> int \<Rightarrow> (nat \<Rightarrow> nat \<Rightarrow> int) \<Rightarrow> bool" where
  "bd n c f \<longleftrightarrow> (\<forall>i<n. \<forall>j<n. \<bar>f i j\<bar> \<le> c)"

definition rep :: "nat \<Rightarrow> (nat \<Rightarrow> nat \<Rightarrow> int) \<Rightarrow> matrix \<Rightarrow> bool" where
  "rep n f M \<longleftrightarrow> sq n M \<and> (\<forall>i<n. \<forall>j<n. is_int (f i j) (M ! i ! j))"

definition madd :: "matrix \<Rightarrow> matrix \<Rightarrow> matrix" where
  "madd A B = mk (length A) (\<lambda>i j. jadd (A ! i ! j) (B ! i ! j))"

definition msub :: "matrix \<Rightarrow> matrix \<Rightarrow> matrix" where
  "msub A B = mk (length A) (\<lambda>i j. jsub (A ! i ! j) (B ! i ! j))"

definition q11 :: "nat \<Rightarrow> matrix \<Rightarrow> matrix" where
  "q11 m M = map (\<lambda>i. take m (M ! i)) [0..<m]"

definition q12 :: "nat \<Rightarrow> matrix \<Rightarrow> matrix" where
  "q12 m M = map (\<lambda>i. drop m (M ! i)) [0..<m]"

definition q21 :: "nat \<Rightarrow> matrix \<Rightarrow> matrix" where
  "q21 m M = map (\<lambda>i. take m (M ! (i + m))) [0..<m]"

definition q22 :: "nat \<Rightarrow> matrix \<Rightarrow> matrix" where
  "q22 m M = map (\<lambda>i. drop m (M ! (i + m))) [0..<m]"

lemma round53_exact: "\<bar>x\<bar> \<le> 2 ^ 53 \<Longrightarrow> round53 x = x"
  by (simp add: round53_def)

lemma fin_exact: "\<bar>x\<bar> \<le> 2 ^ 53 \<Longrightarrow> fin x = Num x"
proof -
  assume a: "\<bar>x\<bar> \<le> 2 ^ 53"
  have "(2::int) ^ 53 < 2 ^ 1024" by (rule power_strict_increasing) simp_all
  with a have "\<not> 2 ^ 1024 \<le> x" "\<not> x \<le> - (2 ^ 1024)" by linarith+
  then show ?thesis by (simp add: fin_def round53_exact[OF a])
qed

lemma is_int_Num [simp]: "is_int x (Num x)"
  by (simp add: is_int_def)

lemma is_add:
  assumes "is_int a u" and "is_int b v" and "\<bar>a + b\<bar> \<le> 2 ^ 53"
  shows "is_int (a + b) (jadd u v)"
  using assms unfolding is_int_def by (auto simp: fin_exact)

lemma is_neg: "is_int b v \<Longrightarrow> is_int (- b) (jneg v)"
  unfolding is_int_def by (cases "b = 0") auto

lemma is_sub:
  assumes "is_int a u" and "is_int b v" and "\<bar>a - b\<bar> \<le> 2 ^ 53"
  shows "is_int (a - b) (jsub u v)"
  using is_add[OF assms(1) is_neg[OF assms(2)]] assms(3) by (simp add: jsub_def)

lemma is_mul:
  assumes "is_int a u" and "is_int b v" and "\<bar>a * b\<bar> \<le> 2 ^ 53"
  shows "is_int (a * b) (jmul u v)"
proof (cases "a = 0 \<or> b = 0")
  case True
  then have "isZero u \<or> isZero v" using assms(1,2) unfolding is_int_def by auto
  moreover have "\<not> isInf u" "\<not> isInf v" "u \<noteq> NaN" "v \<noteq> NaN"
    using assms(1,2) unfolding is_int_def by auto
  ultimately have "jmul u v = NegZero \<or> jmul u v = Num 0"
    unfolding jmul_def by auto
  then show ?thesis using True unfolding is_int_def by auto
next
  case False
  then have "u = Num a" "v = Num b" using assms(1,2) unfolding is_int_def by auto
  then show ?thesis using False assms(3) by (simp add: jmul_def fin_exact)
qed

lemma jadd_Num_is:
  assumes "is_int p v" and "\<bar>s + p\<bar> \<le> 2 ^ 53"
  shows "jadd (Num s) v = Num (s + p)"
  using assms unfolding is_int_def by (auto simp: fin_exact)

lemma is_int_jeq: "is_int x u \<Longrightarrow> is_int x v \<Longrightarrow> jeq u v"
  unfolding is_int_def jeq_def by auto

lemma prod_bound: "\<bar>x\<bar> \<le> c \<Longrightarrow> \<bar>y\<bar> \<le> c' \<Longrightarrow> \<bar>x * y\<bar> \<le> c * (c' :: int)"
  unfolding abs_mult by (rule mult_mono) auto

lemma abs_add_bound: "\<bar>x\<bar> \<le> c \<Longrightarrow> \<bar>y\<bar> \<le> c' \<Longrightarrow> \<bar>x + y\<bar> \<le> c + (c' :: int)"
  by linarith

lemma abs_sub_bound: "\<bar>x\<bar> \<le> c \<Longrightarrow> \<bar>y\<bar> \<le> c' \<Longrightarrow> \<bar>x - y\<bar> \<le> c + (c' :: int)"
  by linarith

lemma mk_nth: "i < n \<Longrightarrow> j < n \<Longrightarrow> mk n f ! i ! j = f i j"
  by (simp add: mk_def)

lemma mk_cong: "(\<And>i j. i < n \<Longrightarrow> j < n \<Longrightarrow> f i j = g i j) \<Longrightarrow> mk n f = mk n g"
  by (simp add: mk_def)

lemma sq_mk [simp]: "sq n (mk n f)"
  by (auto simp: sq_def mk_def)

lemma ofInts_mk: "sq n M \<Longrightarrow> ofInts M = mk n (\<lambda>i j. Num (M ! i ! j))"
  unfolding sq_def mk_def ofInts_def
  by (auto intro!: nth_equalityI)

lemma ofInts_of_mk: "ofInts (mk n h) = mk n (\<lambda>i j. Num (h i j))"
  by (simp add: ofInts_def mk_def)

lemma rep_mk:
  "(\<And>i j. i < n \<Longrightarrow> j < n \<Longrightarrow> is_int (f i j) (F i j)) \<Longrightarrow> rep n f (mk n F)"
  unfolding rep_def by (simp add: mk_nth)

lemma rep_nth: "rep n f M \<Longrightarrow> i < n \<Longrightarrow> j < n \<Longrightarrow> is_int (f i j) (M ! i ! j)"
  unfolding rep_def by simp

lemma rep_length: "rep n f M \<Longrightarrow> length M = n"
  unfolding rep_def sq_def by simp

lemma rep_row: "rep n f M \<Longrightarrow> i < n \<Longrightarrow> length (M ! i) = n"
  unfolding rep_def sq_def by simp

lemma rep_cong: "rep n f M \<Longrightarrow> (\<And>i j. i < n \<Longrightarrow> j < n \<Longrightarrow> f i j = g i j) \<Longrightarrow> rep n g M"
  unfolding rep_def by simp

lemma rep_ofInts: "sq n M \<Longrightarrow> rep n (ent M) (ofInts M)"
  unfolding ofInts_mk ent_def by (intro rep_mk) simp

lemma bd_add: "bd n c f \<Longrightarrow> bd n c' g \<Longrightarrow> bd n (c + c') (\<lambda>i j. f i j + g i j)"
  unfolding bd_def by (meson abs_triangle_ineq add_mono order_trans)

lemma bd_sub: "bd n c f \<Longrightarrow> bd n c' g \<Longrightarrow> bd n (c + c') (\<lambda>i j. f i j - g i j)"
  unfolding bd_def by (meson abs_triangle_ineq4 add_mono order_trans)

lemma bd_mono: "bd n c f \<Longrightarrow> c \<le> c' \<Longrightarrow> bd n c' f"
  unfolding bd_def by (meson order_trans)

lemma bd_q11: "bd (2 * m) c f \<Longrightarrow> bd m c (\<lambda>i j. f i j)"
  unfolding bd_def by simp

lemma bd_q12: "bd (2 * m) c f \<Longrightarrow> bd m c (\<lambda>i j. f i (j + m))"
  unfolding bd_def by simp

lemma bd_q21: "bd (2 * m) c f \<Longrightarrow> bd m c (\<lambda>i j. f (i + m) j)"
  unfolding bd_def by simp

lemma bd_q22: "bd (2 * m) c f \<Longrightarrow> bd m c (\<lambda>i j. f (i + m) (j + m))"
  unfolding bd_def by simp

lemma bd_mm:
  assumes "bd n c f" and "bd n c' g"
  shows "bd n (int n * (c * c')) (mm f g n)"
  unfolding bd_def
proof (intro allI impI)
  fix i j assume i: "i < n" and j: "j < n"
  have "\<bar>mm f g n i j\<bar> \<le> (\<Sum>k<n. \<bar>f i k * g k j\<bar>)"
    unfolding mm_def by (rule sum_abs)
  also have "\<dots> \<le> (\<Sum>k<n. c * c')"
    using assms i j unfolding bd_def by (intro sum_mono prod_bound) auto
  finally show "\<bar>mm f g n i j\<bar> \<le> int n * (c * c')" by simp
qed

lemma addMatrices_eq:
  "addMatrices A B s = (madd A B, count_ops 0 (length A * length A) s)"
  by (simp add: addMatrices_def madd_def Let_def)

lemma subtractMatrices_eq:
  "subtractMatrices A B s = (msub A B, count_ops 0 (length A * length A) s)"
  by (simp add: subtractMatrices_def msub_def Let_def)

lemma rep_madd:
  assumes "rep n f A" and "rep n g B" and "bd n c f" and "bd n c' g" and "c + c' \<le> 2 ^ 53"
  shows "rep n (\<lambda>i j. f i j + g i j) (madd A B)"
  unfolding madd_def rep_length[OF assms(1)]
proof (rule rep_mk)
  fix i j assume ij: "i < n" "j < n"
  have "\<bar>f i j + g i j\<bar> \<le> 2 ^ 53"
    using bd_add[OF assms(3,4)] assms(5) ij unfolding bd_def by (meson order_trans)
  then show "is_int (f i j + g i j) (jadd (A ! i ! j) (B ! i ! j))"
    by (intro is_add rep_nth[OF assms(1)] rep_nth[OF assms(2)] ij)
qed

lemma rep_msub:
  assumes "rep n f A" and "rep n g B" and "bd n c f" and "bd n c' g" and "c + c' \<le> 2 ^ 53"
  shows "rep n (\<lambda>i j. f i j - g i j) (msub A B)"
  unfolding msub_def rep_length[OF assms(1)]
proof (rule rep_mk)
  fix i j assume ij: "i < n" "j < n"
  have "\<bar>f i j - g i j\<bar> \<le> 2 ^ 53"
    using bd_sub[OF assms(3,4)] assms(5) ij unfolding bd_def by (meson order_trans)
  then show "is_int (f i j - g i j) (jsub (A ! i ! j) (B ! i ! j))"
    by (intro is_sub rep_nth[OF assms(1)] rep_nth[OF assms(2)] ij)
qed

lemma splitMatrix_eq:
  "length M = 2 * m \<Longrightarrow> splitMatrix M = Inr (q11 m M, q12 m M, q21 m M, q22 m M)"
  by (simp add: splitMatrix_def Let_def q11_def q12_def q21_def q22_def)

lemma rep_q11: "rep (2 * m) f M \<Longrightarrow> rep m (\<lambda>i j. f i j) (q11 m M)"
  unfolding rep_def sq_def q11_def by auto

lemma rep_q12: "rep (2 * m) f M \<Longrightarrow> rep m (\<lambda>i j. f i (j + m)) (q12 m M)"
  unfolding rep_def sq_def q12_def by (auto simp: add.commute)

lemma rep_q21: "rep (2 * m) f M \<Longrightarrow> rep m (\<lambda>i j. f (i + m) j) (q21 m M)"
  unfolding rep_def sq_def q21_def by auto

lemma rep_q22: "rep (2 * m) f M \<Longrightarrow> rep m (\<lambda>i j. f (i + m) (j + m)) (q22 m M)"
  unfolding rep_def sq_def q22_def by (auto simp: add.commute)

lemma rep_combine:
  assumes "rep m c11 C11" and "rep m c12 C12" and "rep m c21 C21" and "rep m c22 C22"
  shows "rep (2 * m)
           (\<lambda>i j. if i < m then (if j < m then c11 i j else c12 i (j - m))
                   else (if j < m then c21 (i - m) j else c22 (i - m) (j - m)))
           (combineQuadrants C11 C12 C21 C22)"
proof -
  have e: "length C11 * 2 = 2 * m" "2 * m div 2 = m"
    using rep_length[OF assms(1)] by simp_all
  show ?thesis
    unfolding combineQuadrants_def Let_def e
    by (rule rep_mk) (auto intro!: rep_nth[OF assms(1)] rep_nth[OF assms(2)]
        rep_nth[OF assms(3)] rep_nth[OF assms(4)])
qed

lemma sum_halves: "(\<Sum>k<2 * (m::nat). h k) = (\<Sum>k<m. h k) + (\<Sum>k<m. (h (k + m) :: int))"
proof -
  have "(\<Sum>k<2 * m. h k) = (\<Sum>k = 0..<m + m. h k)"
    by (simp add: lessThan_atLeast0 mult_2)
  also have "\<dots> = (\<Sum>k = 0..<m. h k) + (\<Sum>k = m..<m + m. h k)"
    by (rule sum.atLeastLessThan_concat[symmetric]) simp_all
  also have "(\<Sum>k = m..<m + m. h k) = (\<Sum>k = 0..<m. h (k + m))"
    using sum.shift_bounds_nat_ivl[of h 0 m m] by simp
  finally show ?thesis by (simp add: lessThan_atLeast0)
qed

lemma strassen_c11:
  "(\<Sum>k<m. (a11 k + a22 k) * (b11 k + b22 k)) + (\<Sum>k<m. a22 k * (b21 k - b11 k))
     - (\<Sum>k<m. (a11 k + a12 k) * b22 k) + (\<Sum>k<m. (a12 k - a22 k) * (b21 k + b22 k))
   = (\<Sum>k<m. a11 k * b11 k) + (\<Sum>k<m. a12 k * (b21 k :: int))"
  by (simp add: algebra_simps sum.distrib sum_subtractf)

lemma strassen_c12:
  "(\<Sum>k<m. a11 k * (b12 k - b22 k)) + (\<Sum>k<m. (a11 k + a12 k) * b22 k)
   = (\<Sum>k<m. a11 k * b12 k) + (\<Sum>k<m. a12 k * (b22 k :: int))"
  by (simp add: algebra_simps sum.distrib sum_subtractf)

lemma strassen_c21:
  "(\<Sum>k<m. (a21 k + a22 k) * b11 k) + (\<Sum>k<m. a22 k * (b21 k - b11 k))
   = (\<Sum>k<m. a21 k * b11 k) + (\<Sum>k<m. a22 k * (b21 k :: int))"
  by (simp add: algebra_simps sum.distrib sum_subtractf)

lemma strassen_c22:
  "(\<Sum>k<m. (a11 k + a22 k) * (b11 k + b22 k)) + (\<Sum>k<m. a11 k * (b12 k - b22 k))
     - (\<Sum>k<m. (a21 k + a22 k) * b11 k) + (\<Sum>k<m. (a21 k - a11 k) * (b11 k + b12 k))
   = (\<Sum>k<m. a21 k * b12 k) + (\<Sum>k<m. a22 k * (b22 k :: int))"
  by (simp add: algebra_simps sum.distrib sum_subtractf)

lemma mk1: "mk (Suc 0) h = [[h 0 0]]"
  by (simp add: mk_def)

lemma mk2: "mk 2 h = [[h 0 0, h 0 1], [h 1 0, h 1 1]]"
  by (simp add: mk_def upt_rec)

lemma strassen_entries:
  fixes f g :: "nat \<Rightarrow> nat \<Rightarrow> int"
  assumes i: "i < 2 * m" and j: "j < 2 * m"
  shows "(if i < m
             then if j < m
                  then mm (\<lambda>i j. f i j + f (i + m) (j + m))
                        (\<lambda>i j. g i j + g (i + m) (j + m)) m i j +
                       mm (\<lambda>i j. f (i + m) (j + m))
                        (\<lambda>i j. g (i + m) j - g i j) m i j -
                       mm (\<lambda>i j. f i j + f i (j + m))
                        (\<lambda>i j. g (i + m) (j + m)) m i j +
                       mm (\<lambda>i j. f i (j + m) - f (i + m) (j + m))
                        (\<lambda>i j. g (i + m) j + g (i + m) (j + m)) m i j
                  else mm f (\<lambda>i j. g i (j + m) - g (i + m) (j + m)) m i
                        (j - m) +
                       mm (\<lambda>i j. f i j + f i (j + m))
                        (\<lambda>i j. g (i + m) (j + m)) m i (j - m)
             else if j < m
                  then mm (\<lambda>i j. f (i + m) j + f (i + m) (j + m)) g m (i - m)
                        j +
                       mm (\<lambda>i j. f (i + m) (j + m))
                        (\<lambda>i j. g (i + m) j - g i j) m (i - m) j
                  else mm (\<lambda>i j. f i j + f (i + m) (j + m))
                        (\<lambda>i j. g i j + g (i + m) (j + m)) m (i - m) (j - m) +
                       mm f (\<lambda>i j. g i (j + m) - g (i + m) (j + m)) m (i - m)
                        (j - m) -
                       mm (\<lambda>i j. f (i + m) j + f (i + m) (j + m)) g m (i - m)
                        (j - m) +
                       mm (\<lambda>i j. f (i + m) j - f i j)
                        (\<lambda>i j. g i j + g i (j + m)) m (i - m) (j - m)) =
     mm f g (2 * m) i j"
proof -
  have rhs: "mm f g (2 * m) i j = (\<Sum>k<m. f i k * g k j) + (\<Sum>k<m. f i (k + m) * g (k + m) j)"
    unfolding mm_def by (rule sum_halves)
  show ?thesis
  proof (cases "i < m")
    case it: True
    show ?thesis
    proof (cases "j < m")
      case True
      show ?thesis unfolding rhs using it True
        by (simp only: if_True mm_def strassen_c11)
    next
      case False
      then have e: "j - m + m = j" by simp
      show ?thesis unfolding rhs using it False
        by (simp only: if_True if_False mm_def e strassen_c12)
    qed
  next
    case it: False
    then have ei: "i - m + m = i" by simp
    show ?thesis
    proof (cases "j < m")
      case True
      show ?thesis unfolding rhs using it True
        by (simp only: if_True if_False mm_def ei strassen_c21)
    next
      case False
      then have e: "j - m + m = j" by simp
      show ?thesis unfolding rhs using it False
        by (simp only: if_True if_False mm_def e ei strassen_c22)
    qed
  qed
qed

text \<open>
  One level of the recursion for matrices of size \<open>2m\<close>, \<open>m \<ge> 2\<close>, with entries bounded
  by \<open>b\<close>: the arguments of the seven recursive calls are bounded by \<open>2b\<close>, the seven
  products by \<open>N = 4mb\<^sup>2\<close>, and the sums that combine them by \<open>4N\<close>. \<open>R\<close> and \<open>G\<close> stand for
  the matrix and the state that a recursive call returns.
\<close>

lemma strassen_step:
  fixes f g :: "nat \<Rightarrow> nat \<Rightarrow> int"
  assumes m: "2 \<le> m" and b0: "0 \<le> b"
    and K: "4 * (int (2 * m) * int (2 * m)) * (b * b) \<le> 2 ^ 53"
    and bf: "bd (2 * m) b f" and bg: "bd (2 * m) b g"
    and rA: "rep (2 * m) f A" and rB: "rep (2 * m) g B"
    and rec: "\<And>f g A B d s. rep m f A \<Longrightarrow> rep m g B \<Longrightarrow> bd m (b + b) f \<Longrightarrow> bd m (b + b) g \<Longrightarrow>
                strassen A B d s = Inr (R A B d s, G A B d s) \<and>
                rep m (mm f g m) (R A B d s)"
  shows "\<exists>C s'. strassen A B d s = Inr (C, s') \<and> rep (2 * m) (mm f g (2 * m)) C"
proof -
  define N where "N = int m * ((b + b) * (b + b))"
  have bb: "0 \<le> b * b" by simp
  have "1 * (b * b) \<le> int m * (b * b)" using m bb by (intro mult_right_mono) auto
  then have mb: "b * b \<le> int m * (b * b)" by simp
  have "1 * (int m * (b * b)) \<le> int m * (int m * (b * b))"
    using m bb by (intro mult_right_mono) auto
  then have mmb: "int m * (b * b) \<le> int m * int m * (b * b)" by (simp add: mult.assoc)
  have Nb: "N = 4 * (int m * (b * b))" unfolding N_def by (simp add: algebra_simps)
  have K': "16 * (int m * int m * (b * b)) \<le> 2 ^ 53" using K by (simp add: algebra_simps)
  have n4: "N + N + N + N \<le> 2 ^ 53" using K' mmb unfolding Nb by linarith
  have N0: "0 \<le> N" unfolding Nb using m bb by simp
  have n3: "N + N + N \<le> 2 ^ 53" and n2: "N + N \<le> 2 ^ 53" using n4 N0 by linarith+
  have "b \<le> b * b" using b0 by (cases "b = 0") (simp_all add: mult_le_cancel_left1)
  then have b2: "b + b \<le> 2 ^ 53" using mb mmb K' b0 bb by linarith
  have up: "bd m (b + b) h" if "bd m b h" for h
    using b0 by (intro bd_mono[OF that]) simp
  note f11 = bd_q11[OF bf] and f12 = bd_q12[OF bf] and f21 = bd_q21[OF bf]
    and f22 = bd_q22[OF bf]
  note g11 = bd_q11[OF bg] and g12 = bd_q12[OF bg] and g21 = bd_q21[OF bg]
    and g22 = bd_q22[OF bg]
  note a11 = rep_q11[OF rA] and a12 = rep_q12[OF rA] and a21 = rep_q21[OF rA]
    and a22 = rep_q22[OF rA]
  note b11 = rep_q11[OF rB] and b12 = rep_q12[OF rB] and b21 = rep_q21[OF rB]
    and b22 = rep_q22[OF rB]
  note rx1 = rep_madd[OF a11 a22 f11 f22 b2] and ry1 = rep_madd[OF b11 b22 g11 g22 b2]
    and rx2 = rep_madd[OF a21 a22 f21 f22 b2]
    and ry3 = rep_msub[OF b12 b22 g12 g22 b2]
    and ry4 = rep_msub[OF b21 b11 g21 g11 b2]
    and rx5 = rep_madd[OF a11 a12 f11 f12 b2]
    and rx6 = rep_msub[OF a21 a11 f21 f11 b2] and ry6 = rep_madd[OF b11 b12 g11 g12 b2]
    and rx7 = rep_msub[OF a12 a22 f12 f22 b2] and ry7 = rep_madd[OF b21 b22 g21 g22 b2]
  note bx1 = bd_add[OF f11 f22] and by1 = bd_add[OF g11 g22]
    and bx2 = bd_add[OF f21 f22] and by2 = up[OF g11]
    and bx3 = up[OF f11] and by3 = bd_sub[OF g12 g22]
    and bx4 = up[OF f22] and by4 = bd_sub[OF g21 g11]
    and bx5 = bd_add[OF f11 f12] and by5 = up[OF g22]
    and bx6 = bd_sub[OF f21 f11] and by6 = bd_add[OF g11 g12]
    and bx7 = bd_sub[OF f12 f22] and by7 = bd_add[OF g21 g22]
  note R1 = rec[OF rx1 ry1 bx1 by1] and R2 = rec[OF rx2 b11 bx2 by2]
    and R3 = rec[OF a11 ry3 bx3 by3] and R4 = rec[OF a22 ry4 bx4 by4]
    and R5 = rec[OF rx5 b22 bx5 by5] and R6 = rec[OF rx6 ry6 bx6 by6]
    and R7 = rec[OF rx7 ry7 bx7 by7]
  note E = R1[THEN conjunct1] R2[THEN conjunct1] R3[THEN conjunct1] R4[THEN conjunct1]
    R5[THEN conjunct1] R6[THEN conjunct1] R7[THEN conjunct1]
  note Q1 = R1[THEN conjunct2] and Q2 = R2[THEN conjunct2] and Q3 = R3[THEN conjunct2]
    and Q4 = R4[THEN conjunct2] and Q5 = R5[THEN conjunct2] and Q6 = R6[THEN conjunct2]
    and Q7 = R7[THEN conjunct2]
  note p1 = bd_mm[OF bx1 by1, folded N_def] and p2 = bd_mm[OF bx2 by2, folded N_def]
    and p3 = bd_mm[OF bx3 by3, folded N_def] and p4 = bd_mm[OF bx4 by4, folded N_def]
    and p5 = bd_mm[OF bx5 by5, folded N_def] and p6 = bd_mm[OF bx6 by6, folded N_def]
    and p7 = bd_mm[OF bx7 by7, folded N_def]
  note T1 = rep_madd[OF Q1 Q4 p1 p4 n2] and bT1 = bd_add[OF p1 p4]
  note T2 = rep_msub[OF T1 Q5 bT1 p5 n3] and bT2 = bd_sub[OF bT1 p5]
  note T3 = rep_madd[OF T2 Q7 bT2 p7 n4]
  note C12 = rep_madd[OF Q3 Q5 p3 p5 n2] and C21 = rep_madd[OF Q2 Q4 p2 p4 n2]
  note U1 = rep_madd[OF Q1 Q3 p1 p3 n2] and bU1 = bd_add[OF p1 p3]
  note U2 = rep_msub[OF U1 Q2 bU1 p2 n3] and bU2 = bd_sub[OF bU1 p2]
  note U3 = rep_madd[OF U2 Q6 bU2 p6 n4]
  note CC = rep_combine[OF T3 C12 C21 U3]
  note final = rep_cong[OF CC strassen_entries]
  have lA: "length A = 2 * m" and lB: "length B = 2 * m"
    using rA rB by (simp_all add: rep_length)
  have n: "2 * m \<noteq> 1" "2 * m \<noteq> 2" "2 * m \<noteq> 0" using m by simp_all
  show ?thesis
    apply (subst strassen.simps)
    apply (simp only: Let_def lA n if_False splitMatrix_eq[OF lA] splitMatrix_eq[OF lB]
        bindE_def sum.case prod.case addMatrices_eq subtractMatrices_eq E)
    apply (intro exI conjI)
     apply (rule refl)
    apply (rule final; assumption)
    done
qed

lemma sum_two: "(\<Sum>k<2. h k) = h 0 + (h (1::nat) :: int)"
  by (simp add: eval_nat_numeral)

lemma rep_two:
  assumes "is_int (h 0 0) x00" and "is_int (h 0 1) x01"
    and "is_int (h 1 0) x10" and "is_int (h 1 1) x11"
  shows "rep 2 h [[x00, x01], [x10, x11]]"
  using assms unfolding rep_def sq_def
  by (auto simp: less_Suc_eq numeral_2_eq_2)

text \<open>
  The scalar routine for size 2 with entries bounded by \<open>b\<close>: the sums of entries are
  bounded by \<open>2b\<close>, the seven products by \<open>4b\<^sup>2\<close>, and the partial sums of the result by
  \<open>12b\<^sup>2\<close>.
\<close>

lemma strassen2x2_rep:
  fixes f g :: "nat \<Rightarrow> nat \<Rightarrow> int"
  assumes b0: "0 \<le> b" and K: "16 * (b * b) \<le> 2 ^ 53"
    and bf: "bd 2 b f" and bg: "bd 2 b g"
    and rA: "rep 2 f A" and rB: "rep 2 g B"
  shows "rep 2 (mm f g 2) (fst (strassen2x2 A B d s))"
proof -
  define fa fb fc fd where fdefs: "fa = f 0 0" "fb = f 0 1" "fc = f 1 0" "fd = f 1 1"
  define ge gf gg gh where gdefs: "ge = g 0 0" "gf = g 0 1" "gg = g 1 0" "gh = g 1 1"
  define ua ub uc ud where udefs: "ua = A ! 0 ! 0" "ub = A ! 0 ! 1" "uc = A ! 1 ! 0"
    "ud = A ! 1 ! 1"
  define ve vf vg vh where vdefs: "ve = B ! 0 ! 0" "vf = B ! 0 ! 1" "vg = B ! 1 ! 0"
    "vh = B ! 1 ! 1"
  note defs = fdefs gdefs
  define W where "W = b * b"
  have W0: "0 \<le> W" unfolding W_def by simp
  have KW: "16 * W \<le> 2 ^ 53" using K unfolding W_def .
  have "b \<le> b * b" using b0 by (cases "b = 0") (simp_all add: mult_le_cancel_left1)
  then have bW: "b \<le> W" unfolding W_def .
  have ab: "\<bar>fa\<bar> \<le> b" "\<bar>fb\<bar> \<le> b" "\<bar>fc\<bar> \<le> b" "\<bar>fd\<bar> \<le> b"
    "\<bar>ge\<bar> \<le> b" "\<bar>gf\<bar> \<le> b" "\<bar>gg\<bar> \<le> b" "\<bar>gh\<bar> \<le> b"
    using bf bg unfolding bd_def defs by simp_all
  have ia: "is_int fa ua" "is_int fb ub" "is_int fc uc" "is_int fd ud"
    unfolding fdefs udefs by (rule rep_nth[OF rA]; simp)+
  have ib: "is_int ge ve" "is_int gf vf" "is_int gg vg" "is_int gh vh"
    unfolding gdefs vdefs by (rule rep_nth[OF rB]; simp)+
  note s = abs_add_bound[OF ab(1) ab(4)] abs_add_bound[OF ab(5) ab(8)]
    abs_add_bound[OF ab(3) ab(4)] abs_sub_bound[OF ab(6) ab(8)]
    abs_sub_bound[OF ab(7) ab(5)] abs_add_bound[OF ab(1) ab(2)]
    abs_sub_bound[OF ab(3) ab(1)] abs_add_bound[OF ab(5) ab(6)]
    abs_sub_bound[OF ab(2) ab(4)] abs_add_bound[OF ab(7) ab(8)]
  define M1 M2 M3 M4 M5 M6 M7 where Ms: "M1 = (fa + fd) * (ge + gh)" "M2 = (fc + fd) * ge"
    "M3 = fa * (gf - gh)" "M4 = fd * (gg - ge)" "M5 = (fa + fb) * gh"
    "M6 = (fc - fa) * (ge + gf)" "M7 = (fb - fd) * (gg + gh)"
  have q: "(b + b) * (b + b) = 4 * W" "(b + b) * b = 2 * W" "b * (b + b) = 2 * W"
    unfolding W_def by (simp_all add: algebra_simps)
  have p: "\<bar>M1\<bar> \<le> 4 * W" "\<bar>M2\<bar> \<le> 2 * W" "\<bar>M3\<bar> \<le> 2 * W" "\<bar>M4\<bar> \<le> 2 * W"
    "\<bar>M5\<bar> \<le> 2 * W" "\<bar>M6\<bar> \<le> 4 * W" "\<bar>M7\<bar> \<le> 4 * W"
    unfolding Ms
    using prod_bound[OF s(1) s(2)] prod_bound[OF s(3) ab(5)] prod_bound[OF ab(1) s(4)]
      prod_bound[OF ab(4) s(5)] prod_bound[OF s(6) ab(8)] prod_bound[OF s(7) s(8)]
      prod_bound[OF s(9) s(10)]
    unfolding q by blast+
  have b2: "b + b \<le> 2 ^ 53" using bW KW W0 by linarith
  have w2: "2 * W \<le> 2 ^ 53" and w4: "4 * W \<le> 2 ^ 53" using KW W0 by linarith+
  note e1 = is_add[OF ia(1) ia(4) order_trans[OF s(1) b2]]
    and e2 = is_add[OF ib(1) ib(4) order_trans[OF s(2) b2]]
    and e3 = is_add[OF ia(3) ia(4) order_trans[OF s(3) b2]]
    and e4 = is_sub[OF ib(2) ib(4) order_trans[OF s(4) b2]]
    and e5 = is_sub[OF ib(3) ib(1) order_trans[OF s(5) b2]]
    and e6 = is_add[OF ia(1) ia(2) order_trans[OF s(6) b2]]
    and e7 = is_sub[OF ia(3) ia(1) order_trans[OF s(7) b2]]
    and e8 = is_add[OF ib(1) ib(2) order_trans[OF s(8) b2]]
    and e9 = is_sub[OF ia(2) ia(4) order_trans[OF s(9) b2]]
    and e10 = is_add[OF ib(3) ib(4) order_trans[OF s(10) b2]]
  note m1 = is_mul[OF e1 e2 order_trans[OF p(1)[unfolded Ms] w4], folded Ms]
    and m2 = is_mul[OF e3 ib(1) order_trans[OF p(2)[unfolded Ms] w2], folded Ms]
    and m3 = is_mul[OF ia(1) e4 order_trans[OF p(3)[unfolded Ms] w2], folded Ms]
    and m4 = is_mul[OF ia(4) e5 order_trans[OF p(4)[unfolded Ms] w2], folded Ms]
    and m5 = is_mul[OF e6 ib(4) order_trans[OF p(5)[unfolded Ms] w2], folded Ms]
    and m6 = is_mul[OF e7 e8 order_trans[OF p(6)[unfolded Ms] w4], folded Ms]
    and m7 = is_mul[OF e9 e10 order_trans[OF p(7)[unfolded Ms] w4], folded Ms]
  have t1: "\<bar>M1 + M4\<bar> \<le> 6 * W" using abs_add_bound[OF p(1) p(4)] by simp
  have t2: "\<bar>M1 + M4 - M5\<bar> \<le> 8 * W" using abs_sub_bound[OF t1 p(5)] by simp
  have t3: "\<bar>M1 + M4 - M5 + M7\<bar> \<le> 12 * W" using abs_add_bound[OF t2 p(7)] by simp
  have t4: "\<bar>M3 + M5\<bar> \<le> 4 * W" using abs_add_bound[OF p(3) p(5)] by simp
  have t5: "\<bar>M2 + M4\<bar> \<le> 4 * W" using abs_add_bound[OF p(2) p(4)] by simp
  have t6: "\<bar>M1 - M2\<bar> \<le> 6 * W" using abs_sub_bound[OF p(1) p(2)] by simp
  have t7: "\<bar>M1 - M2 + M3\<bar> \<le> 8 * W" using abs_add_bound[OF t6 p(3)] by simp
  have t8: "\<bar>M1 - M2 + M3 + M6\<bar> \<le> 12 * W" using abs_add_bound[OF t7 p(6)] by simp
  have w: "6 * W \<le> 2 ^ 53" "8 * W \<le> 2 ^ 53" "12 * W \<le> 2 ^ 53"
    using KW W0 by linarith+
  note c11 = is_add[OF is_sub[OF is_add[OF m1 m4 order_trans[OF t1 w(1)]] m5
        order_trans[OF t2 w(2)]] m7 order_trans[OF t3 w(3)]]
    and c12 = is_add[OF m3 m5 order_trans[OF t4 w4]]
    and c21 = is_add[OF m2 m4 order_trans[OF t5 w4]]
    and c22 = is_add[OF is_add[OF is_sub[OF m1 m2 order_trans[OF t6 w(1)]] m3
        order_trans[OF t7 w(2)]] m6 order_trans[OF t8 w(3)]]
  have v: "mm f g 2 0 0 = M1 + M4 - M5 + M7" "mm f g 2 0 1 = M3 + M5"
    "mm f g 2 1 0 = M2 + M4" "mm f g 2 1 1 = M1 - M2 + M3 + M6"
    unfolding mm_def sum_two Ms defs by (simp_all add: algebra_simps)
  have r: "fst (strassen2x2 A B d s) =
      [[jadd (jsub (jadd (jmul (jadd ua ud) (jadd ve vh)) (jmul ud (jsub vg ve)))
                (jmul (jadd ua ub) vh)) (jmul (jsub ub ud) (jadd vg vh)),
        jadd (jmul ua (jsub vf vh)) (jmul (jadd ua ub) vh)],
       [jadd (jmul (jadd uc ud) ve) (jmul ud (jsub vg ve)),
        jadd (jadd (jsub (jmul (jadd ua ud) (jadd ve vh)) (jmul (jadd uc ud) ve))
                (jmul ua (jsub vf vh))) (jmul (jsub uc ua) (jadd ve vf))]]"
    unfolding udefs vdefs by (simp add: strassen2x2_def Let_def)
  show ?thesis
    unfolding r by (rule rep_two) (simp_all only: v c11 c12 c21 c22)
qed

lemma strassen_two:
  fixes f g :: "nat \<Rightarrow> nat \<Rightarrow> int"
  assumes "0 \<le> b" and "16 * (b * b) \<le> 2 ^ 53" and "bd 2 b f" and "bd 2 b g"
    and "rep 2 f A" and "rep 2 g B"
  shows "\<exists>C s'. strassen A B d s = Inr (C, s') \<and> rep 2 (mm f g 2) C"
proof -
  have "length A = 2" using assms(5) by (rule rep_length)
  then have "strassen A B d s = Inr (strassen2x2 A B d (enterStrassen d s))"
    by (subst strassen.simps) (simp add: Let_def)
  then show ?thesis
    using strassen2x2_rep[OF assms, of d "enterStrassen d s"]
    by (metis prod.collapse)
qed

lemma strassen_one:
  fixes f g :: "nat \<Rightarrow> nat \<Rightarrow> int"
  assumes "b * b \<le> 2 ^ 53" and "bd (Suc 0) b f" and "bd (Suc 0) b g"
    and "rep (Suc 0) f A" and "rep (Suc 0) g B"
  shows "\<exists>C s'. strassen A B d s = Inr (C, s') \<and> rep (Suc 0) (mm f g (Suc 0)) C"
proof -
  have "\<bar>f 0 0 * g 0 0\<bar> \<le> b * b"
    using assms(2,3) unfolding bd_def by (intro prod_bound) auto
  then have "\<bar>f 0 0 * g 0 0\<bar> \<le> 2 ^ 53" using assms(1) by linarith
  from is_mul[OF rep_nth[OF assms(4)] rep_nth[OF assms(5)] this]
  have i: "is_int (f 0 0 * g 0 0) (jmul (A ! 0 ! 0) (B ! 0 ! 0))" by simp
  have r: "rep (Suc 0) (mm f g (Suc 0)) [[jmul (A ! 0 ! 0) (B ! 0 ! 0)]]"
    unfolding rep_def sq_def using i by (simp add: mm_def)
  have "length A = 1" using assms(4) by (simp add: rep_length)
  then show ?thesis
    using r by (subst strassen.simps) (simp add: Let_def)
qed

lemma strassen_rep:
  fixes f g :: "nat \<Rightarrow> nat \<Rightarrow> int"
  assumes "n = 2 ^ k" and "0 \<le> b" and "4 * (int n * int n) * (b * b) \<le> 2 ^ 53"
    and "bd n b f" and "bd n b g" and "rep n f A" and "rep n g B"
  shows "\<exists>C s'. strassen A B d s = Inr (C, s') \<and> rep n (mm f g n) C"
  using assms
proof (induction k arbitrary: n b f g A B d s)
  case 0
  then have n: "n = Suc 0" by simp
  have "0 \<le> b * b" by simp
  with 0 have "b * b \<le> 2 ^ 53" unfolding n by simp
  then show ?case using 0 strassen_one[of b f g A B d s] unfolding n by simp
next
  case (Suc k)
  show ?case
  proof (cases "k = 0")
    case True
    then have n: "n = 2" using Suc.prems by simp
    have "16 * (b * b) \<le> 2 ^ 53" using Suc.prems(3) unfolding n by simp
    then show ?thesis using strassen_two[of b f g A B d s] Suc.prems unfolding n by simp
  next
    case False
    define m :: nat where "m = 2 ^ k"
    define R where "R A B d s = fst (projr (strassen A B d s))" for A B d s
    define G where "G A B d s = snd (projr (strassen A B d s))" for A B d s
    have m2: "2 \<le> m"
      using False self_le_power[of 2 k] unfolding m_def by simp
    have n: "n = 2 * m" using Suc.prems(1) by (simp add: m_def)
    have K: "4 * (int (2 * m) * int (2 * m)) * (b * b) \<le> 2 ^ 53"
      using Suc.prems(3) unfolding n .
    then have K': "4 * (int m * int m) * ((b + b) * (b + b)) \<le> 2 ^ 53"
      by (simp add: algebra_simps)
    have b2: "0 \<le> b + b" using Suc.prems(2) by simp
    have rec: "strassen A B d s = Inr (R A B d s, G A B d s) \<and> rep m (mm f g m) (R A B d s)"
      if "rep m f A" "rep m g B" "bd m (b + b) f" "bd m (b + b) g" for f g A B d s
    proof -
      from Suc.IH[OF m_def b2 K' that(3,4,1,2), of d s] obtain C s' where
        "strassen A B d s = Inr (C, s')" "rep m (mm f g m) C"
        by blast
      then show ?thesis unfolding R_def G_def by simp
    qed
    show ?thesis
      using strassen_step[OF m2 Suc.prems(2) K _ _ _ _ rec, of f g A B d s] Suc.prems(4-7)
      unfolding n by simp
  qed
qed

lemma fold_naive:
  assumes v: "\<And>k. k < n \<Longrightarrow> is_int (p k) (v k)" and p: "\<And>k. k < n \<Longrightarrow> \<bar>p k\<bar> \<le> c"
    and c: "int n * c \<le> 2 ^ 53" and k: "k \<le> n"
  shows "fold (\<lambda>k acc. jadd acc (v k)) [0..<k] (Num 0) = Num (\<Sum>l<k. p l)"
  using k
proof (induction k)
  case 0
  show ?case by simp
next
  case (Suc k)
  have c0: "0 \<le> c" using p[of k] Suc.prems by linarith
  have "\<bar>\<Sum>l<Suc k. p l\<bar> \<le> (\<Sum>l<Suc k. \<bar>p l\<bar>)" by (rule sum_abs)
  also have "\<dots> \<le> (\<Sum>l<Suc k. c)"
    using Suc.prems by (intro sum_mono p) auto
  also have "\<dots> = int (Suc k) * c" by simp
  also have "\<dots> \<le> int n * c"
    using Suc.prems c0 by (intro mult_right_mono) auto
  finally have s: "\<bar>(\<Sum>l<k. p l) + p k\<bar> \<le> 2 ^ 53" using c by simp
  have ih: "fold (\<lambda>k acc. jadd acc (v k)) [0..<k] (Num 0) = Num (\<Sum>l<k. p l)"
    using Suc by simp
  have "is_int (p k) (v k)" using v Suc.prems by simp
  from jadd_Num_is[OF this s] show ?case
    unfolding fold_upt_Suc ih by simp
qed

lemma naive_rep:
  assumes "rep n f A" and "rep n g B" and "bd n c f" and "bd n c' g"
    and "int n * (c * c') \<le> 2 ^ 53"
  shows "naiveMultiply A B = mk n (\<lambda>i j. Num (mm f g n i j))"
proof -
  have "fold (\<lambda>k acc. jadd acc (jmul (A ! i ! k) (B ! k ! j))) [0..<n] (Num 0) =
        Num (mm f g n i j)" if i: "i < n" and j: "j < n" for i j
    unfolding mm_def
  proof (rule fold_naive[where c = "c * c'"])
    fix k assume k: "k < n"
    show b: "\<bar>f i k * g k j\<bar> \<le> c * c'"
      using assms(3,4) i j k unfolding bd_def by (intro prod_bound) auto
    have c0: "0 \<le> c * c'" using b by linarith
    have "1 * (c * c') \<le> int n * (c * c')"
      using c0 k by (intro mult_right_mono) auto
    then have "\<bar>f i k * g k j\<bar> \<le> 2 ^ 53" using b assms(5) by linarith
    then show "is_int (f i k * g k j) (jmul (A ! i ! k) (B ! k ! j))"
      by (intro is_mul rep_nth[OF assms(1)] rep_nth[OF assms(2)] i j k)
  qed (use assms(5) in simp_all)
  then show ?thesis
    unfolding naiveMultiply_def Let_def rep_length[OF assms(1)] by (intro mk_cong) simp
qed

lemma rep_jeq:
  assumes "rep n f C"
  shows "list_all2 (list_all2 jeq) C (mk n (\<lambda>i j. Num (f i j)))"
proof -
  have l: "length C = n" "\<And>i. i < n \<Longrightarrow> length (C ! i) = n"
    using assms by (simp_all add: rep_length rep_row)
  have "jeq (C ! i ! j) (Num (f i j))" if "i < n" "j < n" for i j
    using rep_nth[OF assms that] by (intro is_int_jeq[of "f i j"]) simp_all
  then show ?thesis
    using l by (simp add: list_all2_conv_all_nth mk_def)
qed

lemma bd_ent:
  assumes "sq n A" and "\<forall>r\<in>set A. \<forall>x\<in>set r. \<bar>x\<bar> \<le> b"
  shows "bd n b (ent A)"
  unfolding bd_def ent_def
proof (intro allI impI)
  fix i j assume i: "i < n" and j: "j < n"
  have r: "A ! i \<in> set A" using assms(1) i unfolding sq_def by simp
  then have "length (A ! i) = n" using assms(1) unfolding sq_def by blast
  then have "A ! i ! j \<in> set (A ! i)" using j by simp
  with r assms(2) show "\<bar>A ! i ! j\<bar> \<le> b" by blast
qed

text \<open>
  Claim C6, as the code has it. For \<open>n \<times> n\<close> integer matrices with \<open>n\<close> a power of 2
  (1, 2, 4, 8, \<dots>) whose entries are at most \<open>b\<close> in absolute value, where
  \<open>4 n\<^sup>2 b\<^sup>2 \<le> 2\<^sup>5\<^sup>3\<close>, \<^verbatim>\<open>StrassenSolver.solve()\<close> returns normally and its result matrix
  equals \<^verbatim>\<open>naiveMultiply(A, B)\<close> entry by entry (by \<^verbatim>\<open>===\<close>), which is the exact product of
  the two matrices: no operation of either routine has rounded.
\<close>

theorem strassen_equals_naive:
  assumes "sq n A" and "sq n B" and "n = 2 ^ k"
    and "\<forall>r\<in>set A. \<forall>x\<in>set r. \<bar>x\<bar> \<le> b"
    and "\<forall>r\<in>set B. \<forall>x\<in>set r. \<bar>x\<bar> \<le> b"
    and "4 * (int n)\<^sup>2 * b\<^sup>2 \<le> 2 ^ 53"
  shows "\<exists>r. st_solve (ofInts A) (ofInts B) = Inr r \<and>
             list_all2 (list_all2 jeq) (result r) (naiveMultiply (ofInts A) (ofInts B)) \<and>
             naiveMultiply (ofInts A) (ofInts B) =
               ofInts (mk n (\<lambda>i j. \<Sum>k<n. A ! i ! k * B ! k ! j))"
proof -
  have rA: "rep n (ent A) (ofInts A)" using assms(1) by (rule rep_ofInts)
  have rB: "rep n (ent B) (ofInts B)" using assms(2) by (rule rep_ofInts)
  have bA: "bd n b (ent A)" using assms(1,4) by (rule bd_ent)
  have bB: "bd n b (ent B)" using assms(2,5) by (rule bd_ent)
  have n1: "1 \<le> n" using assms(3) by simp
  have "\<bar>ent A 0 0\<bar> \<le> b" using bA n1 unfolding bd_def by simp
  then have b0: "0 \<le> b" by linarith
  have K: "4 * (int n * int n) * (b * b) \<le> 2 ^ 53"
    using assms(6) by (simp add: power2_eq_square)
  have bb: "0 \<le> b * b" by simp
  have "1 * (int n * (b * b)) \<le> int n * (int n * (b * b))"
    using n1 bb by (intro mult_right_mono) auto
  then have q: "int n * (b * b) \<le> int n * int n * (b * b)" by (simp add: mult.assoc)
  have P0: "0 \<le> int n * int n * (b * b)" by simp
  have K2: "4 * (int n * int n * (b * b)) \<le> 2 ^ 53" using K by (simp add: mult.assoc)
  from P0 q K2 have Kn: "int n * (b * b) \<le> 2 ^ 53" by linarith
  have nv: "naiveMultiply (ofInts A) (ofInts B) = mk n (\<lambda>i j. Num (mm (ent A) (ent B) n i j))"
    using rA rB bA bB Kn by (rule naive_rep)
  have ex: "ofInts (mk n (\<lambda>i j. \<Sum>k<n. A ! i ! k * B ! k ! j)) =
      mk n (\<lambda>i j. Num (mm (ent A) (ent B) n i j))"
    unfolding ofInts_of_mk mm_def ent_def ..
  from strassen_rep[OF assms(3) b0 K bA bB rA rB,
      of 0 "spush (SInit (ofInts A) (ofInts B)) st_resetState"]
  obtain C s' where C: "strassen (ofInts A) (ofInts B) 0
      (spush (SInit (ofInts A) (ofInts B)) st_resetState) = Inr (C, s')"
    and rC: "rep n (mm (ent A) (ent B) n) C"
    by blast
  have "list_all2 (list_all2 jeq) C (naiveMultiply (ofInts A) (ofInts B))"
    unfolding nv using rC by (rule rep_jeq)
  then show ?thesis
    using C unfolding ex nv[symmetric] by (simp add: st_solve_def Let_def bindE_def)
qed

lemma strassen_example:
  "map_sum id result
     (st_solve (ofInts [[57770684, 29205802], [23314298, 25832713]])
        (ofInts [[49309724, 33504088], [55011113, 57797320]])) =
   Inr [[Num 4455300157408841, Num 3623571164606832],
        [Num 2570707893573321, Num 2274185871579384]]"
  by code_simp

lemma naive_rounding_example:
  "naiveMultiply (ofInts [[57770684, 29205802], [23314298, 25832713]])
        (ofInts [[49309724, 33504088], [55011113, 57797320]]) =
   [[Num 4455300157408842, Num 3623571164606832],
    [Num 2570707893573321, Num 2274185871579384]]"
  by code_simp

text \<open>
  Claim C6 as stated (every pair of integer matrices) fails: for the two matrices below,
  of size 2 and with entries below \<open>2\<^sup>2\<^sup>6\<close>, the sum \<^verbatim>\<open>M1 + M4\<close> of \<^verbatim>\<open>_strassen2x2\<close>
  is \<open>9101795066766825\<close>, above \<open>2\<^sup>5\<^sup>3\<close>, and rounds to \<open>9101795066766824\<close>, so that the
  solver returns \<open>4455300157408841\<close> at \<open>(0, 0)\<close>, where \<^verbatim>\<open>naiveMultiply\<close> returns the
  exact \<open>4455300157408842\<close>.
\<close>

theorem strassen_differs_from_naive:
  "sq 2 [[57770684, 29205802], [23314298, 25832713 :: int]] \<and>
   sq 2 [[49309724, 33504088], [55011113, 57797320 :: int]] \<and> (2::nat) = 2 ^ 1 \<and>
   (\<exists>r. st_solve (ofInts [[57770684, 29205802], [23314298, 25832713]])
          (ofInts [[49309724, 33504088], [55011113, 57797320]]) = Inr r \<and>
        result r ! 0 ! 0 = Num 4455300157408841) \<and>
   naiveMultiply (ofInts [[57770684, 29205802], [23314298, 25832713]])
     (ofInts [[49309724, 33504088], [55011113, 57797320]]) ! 0 ! 0 = Num 4455300157408842 \<and>
   \<not> (\<exists>r. st_solve (ofInts [[57770684, 29205802], [23314298, 25832713]])
            (ofInts [[49309724, 33504088], [55011113, 57797320]]) = Inr r \<and>
          list_all2 (list_all2 jeq) (result r)
            (naiveMultiply (ofInts [[57770684, 29205802], [23314298, 25832713]])
               (ofInts [[49309724, 33504088], [55011113, 57797320]])))"
proof -
  let ?A = "ofInts [[57770684, 29205802], [23314298, 25832713]]"
  let ?B = "ofInts [[49309724, 33504088], [55011113, 57797320]]"
  let ?X = "[[Num 4455300157408841, Num 3623571164606832],
             [Num 2570707893573321, Num 2274185871579384]]"
  have r: "result r = ?X" if "st_solve ?A ?B = Inr r" for r
    using strassen_example that by simp
  obtain r where s: "st_solve ?A ?B = Inr r"
    using strassen_example by (cases "st_solve ?A ?B") auto
  have 1: "\<exists>r. st_solve ?A ?B = Inr r \<and> result r ! 0 ! 0 = Num 4455300157408841"
    using s r[OF s] by simp
  have 2: "naiveMultiply ?A ?B ! 0 ! 0 = Num 4455300157408842"
    unfolding naive_rounding_example by simp
  have 3: "\<not> (\<exists>r. st_solve ?A ?B = Inr r \<and>
      list_all2 (list_all2 jeq) (result r) (naiveMultiply ?A ?B))"
    unfolding naive_rounding_example using r by (auto simp: jeq_def)
  have 4: "sq 2 [[57770684, 29205802], [23314298, 25832713 :: int]]"
    "sq 2 [[49309724, 33504088], [55011113, 57797320 :: int]]"
    by (simp_all add: sq_def)
  from 1 2 3 4 show ?thesis by simp
qed

text \<open>
  The comparison is \<^verbatim>\<open>===\<close> and not identity of the two arrays' contents: within the
  bound a zero entry of Strassen's result can be \<^verbatim>\<open>-0\<close> where \<^verbatim>\<open>naiveMultiply\<close>, which
  starts every entry at \<^verbatim>\<open>0\<close>, has \<^verbatim>\<open>0\<close>.
\<close>

lemma strassen_negative_zero:
  "map_sum id result (st_solve (ofInts [[1, 1], [0, 0]]) (ofInts [[- 1, 1], [- 2, 1]])) =
     Inr [[Num (- 3), Num 2], [NegZero, Num 0]] \<and>
   naiveMultiply (ofInts [[1, 1], [0, 0]]) (ofInts [[- 1, 1], [- 2, 1]]) =
     [[Num (- 3), Num 2], [Num 0, Num 0]]"
  by code_simp

lemma product_example:
  "mk 4 (\<lambda>i j. \<Sum>k<4. [[1, 2, 3, 4], [5, 6, 7, 8], [9, 10, 11, 12], [13, 14, 15, 16]] ! i ! k *
                        [[1, 0, 0, 0], [0, 1, 0, 0], [0, 0, 1, 0], [0, 0, 0, 2 :: int]] ! k ! j) =
   [[1, 2, 3, 8], [5, 6, 7, 16], [9, 10, 11, 24], [13, 14, 15, 32]]"
  by (simp add: mk_def upt_rec eval_nat_numeral lessThan_Suc)

theorem strassen_equals_naive_witness:
  "sq 4 [[1, 2, 3, 4], [5, 6, 7, 8], [9, 10, 11, 12], [13, 14, 15, 16 :: int]] \<and>
   sq 4 [[1, 0, 0, 0], [0, 1, 0, 0], [0, 0, 1, 0], [0, 0, 0, 2 :: int]] \<and> (4::nat) = 2 ^ 2 \<and>
   list_all (list_all (\<lambda>x. \<bar>x\<bar> \<le> 16))
     [[1, 2, 3, 4], [5, 6, 7, 8], [9, 10, 11, 12], [13, 14, 15, 16 :: int]] \<and>
   list_all (list_all (\<lambda>x. \<bar>x\<bar> \<le> 16))
     [[1, 0, 0, 0], [0, 1, 0, 0], [0, 0, 1, 0], [0, 0, 0, 2 :: int]] \<and>
   4 * (int 4)\<^sup>2 * (16::int)\<^sup>2 \<le> 2 ^ 53 \<and>
   (\<exists>r. st_solve (ofInts [[1, 2, 3, 4], [5, 6, 7, 8], [9, 10, 11, 12], [13, 14, 15, 16]])
          (ofInts [[1, 0, 0, 0], [0, 1, 0, 0], [0, 0, 1, 0], [0, 0, 0, 2]]) = Inr r \<and>
        list_all2 (list_all2 jeq) (result r)
          (naiveMultiply
            (ofInts [[1, 2, 3, 4], [5, 6, 7, 8], [9, 10, 11, 12], [13, 14, 15, 16]])
            (ofInts [[1, 0, 0, 0], [0, 1, 0, 0], [0, 0, 1, 0], [0, 0, 0, 2]])) \<and>
        naiveMultiply
          (ofInts [[1, 2, 3, 4], [5, 6, 7, 8], [9, 10, 11, 12], [13, 14, 15, 16]])
          (ofInts [[1, 0, 0, 0], [0, 1, 0, 0], [0, 0, 1, 0], [0, 0, 0, 2]]) =
        ofInts [[1, 2, 3, 8], [5, 6, 7, 16], [9, 10, 11, 24], [13, 14, 15, 32]])"
proof -
  have a: "sq 4 [[1, 2, 3, 4], [5, 6, 7, 8], [9, 10, 11, 12], [13, 14, 15, 16 :: int]]"
    and b: "sq 4 [[1, 0, 0, 0], [0, 1, 0, 0], [0, 0, 1, 0], [0, 0, 0, 2 :: int]]"
    by (simp_all add: sq_def)
  have c: "(4::nat) = 2 ^ 2" by simp
  have d: "\<forall>r\<in>set [[1, 2, 3, 4], [5, 6, 7, 8], [9, 10, 11, 12], [13, 14, 15, 16 :: int]].
      \<forall>x\<in>set r. \<bar>x\<bar> \<le> 16"
    and e: "\<forall>r\<in>set [[1, 0, 0, 0], [0, 1, 0, 0], [0, 0, 1, 0], [0, 0, 0, 2 :: int]].
      \<forall>x\<in>set r. \<bar>x\<bar> \<le> 16"
    by simp_all
  have f: "4 * (int 4)\<^sup>2 * (16::int)\<^sup>2 \<le> 2 ^ 53" by simp
  have d': "list_all (list_all (\<lambda>x. \<bar>x\<bar> \<le> 16))
      [[1, 2, 3, 4], [5, 6, 7, 8], [9, 10, 11, 12], [13, 14, 15, 16 :: int]]"
    and e': "list_all (list_all (\<lambda>x. \<bar>x\<bar> \<le> 16))
      [[1, 0, 0, 0], [0, 1, 0, 0], [0, 0, 1, 0], [0, 0, 0, 2 :: int]]"
    by simp_all
  from strassen_equals_naive[OF a b c d e f] a b c d' e' f show ?thesis
    unfolding product_example by blast
qed

end
